theory Spec2Isabelle
  imports Complex_Main "HOL-Library.Sublist"
begin

section \<open>Strings\<close>

text \<open>
  Python strings are modelled as HOL strings (lists of characters); \<open>len\<close> is
  \<open>length\<close>.  The two separators the program splits on are the line feed and the
  citation marker.
\<close>

definition newline :: char where
  "newline = CHR 0x0A"

definition citation_marker :: string where
  "citation_marker = ''[1]''"

text \<open>
  \<open>str.split(sep)\<close> scans from the left and cuts at every non-overlapping occurrence
  of \<open>sep\<close>; \<open>acc\<close> is the segment collected so far.  Python raises on an empty
  separator; both call sites pass a non-empty literal, and the guard \<open>sep \<noteq> []\<close>
  keeps the scan total.
\<close>

function split_from :: "string \<Rightarrow> string \<Rightarrow> string \<Rightarrow> string list" where
  "split_from sep acc [] = [acc]"
| "split_from sep acc (c # cs) =
     (if sep \<noteq> [] \<and> prefix sep (c # cs)
      then acc # split_from sep [] (drop (length sep) (c # cs))
      else split_from sep (acc @ [c]) cs)"
  by pat_completeness auto
termination
  by (relation "measure (\<lambda>(sep, acc, s). length s)") auto

definition py_split :: "string \<Rightarrow> string \<Rightarrow> string list" where
  "py_split sep s = split_from sep [] s"

text \<open>\<open>sep.join(parts)\<close>.\<close>

fun py_join :: "string \<Rightarrow> string list \<Rightarrow> string" where
  "py_join sep [] = []"
| "py_join sep [p] = p"
| "py_join sep (p # q # ps) = p @ sep @ py_join sep (q # ps)"

text \<open>
  \<open>str.strip()\<close> removes leading and trailing whitespace.  The characters below are
  the code points under 256 for which \<open>str.isspace()\<close> holds.
\<close>

definition isspace :: "char \<Rightarrow> bool" where
  "isspace c = (c \<in> set [CHR 0x09, CHR 0x0A, CHR 0x0B, CHR 0x0C, CHR 0x0D,
                          CHR 0x1C, CHR 0x1D, CHR 0x1E, CHR 0x1F, CHR 0x20,
                          CHR 0x85, CHR 0xA0])"

definition strip :: "string \<Rightarrow> string" where
  "strip s = rev (dropWhile isspace (rev (dropWhile isspace s)))"

section \<open>Exceptions\<close>

text \<open>
  Every exception the program handles is caught by \<open>except Exception\<close>; what the
  handlers read of it is \<open>str(e)\<close> and, at the HTTP boundary, whether it is an
  \<open>HTTPException\<close> with its status code and detail.
\<close>

datatype exn = Exception string | HTTPException nat string

section \<open>Result extraction: citation truncation\<close>

text \<open>
  Line 476 of \<open>getResult\<close>:
  \<open>clipboard_content.split("[1]")[0] if clipboard_content else ""\<close>.
  Indexing an empty list raises \<open>IndexError\<close> in Python; the model keeps that branch.
\<close>

definition cleaned_citation_string :: "string \<Rightarrow> exn + string" where
  "cleaned_citation_string clipboard_content =
     (if clipboard_content \<noteq> [] then
        (case py_split citation_marker clipboard_content of
           [] \<Rightarrow> Inl (Exception ''list index out of range'')
         | first # _ \<Rightarrow> Inr first)
      else Inr [])"

section \<open>Prompt typing: keys sent\<close>

text \<open>
  The arguments of \<open>send_keys\<close>: literal text, or one of the three key combinations the
  program sends (\<open>Keys.SHIFT + Keys.ENTER\<close>, \<open>Keys.CONTROL + Keys.RETURN\<close>,
  \<open>Keys.ENTER\<close>).
\<close>

datatype keys = Text string | ShiftEnter | CtrlReturn | EnterKey

text \<open>
  Lines 135-142 of \<open>inputFieldCheck\<close>: the sequence of \<open>send_keys\<close> arguments, in
  order.  \<open>part_keys\<close> is the \<open>for i, part in enumerate(parts)\<close> loop.
\<close>

definition part_keys :: "string list \<Rightarrow> keys list" where
  "part_keys parts =
     concat (map (\<lambda>(i, part). Text part # (if i < length parts - 1 then [ShiftEnter] else []))
                 (enumerate 0 parts))"

definition typing_keys :: "string \<Rightarrow> keys list" where
  "typing_keys contentToType =
     (if newline \<in> set contentToType
      then part_keys (py_split [newline] contentToType)
      else [Text contentToType])"

text \<open>
  The specification's reading of the typed sequence: each segment followed by one
  soft newline, except after the final segment; and the text such a sequence stands for,
  one line feed per soft newline.
\<close>

fun soft_joined :: "string list \<Rightarrow> keys list" where
  "soft_joined [] = []"
| "soft_joined [p] = [Text p]"
| "soft_joined (p # q # ps) = Text p # ShiftEnter # soft_joined (q # ps)"

fun key_text :: "keys \<Rightarrow> string" where
  "key_text (Text s) = s"
| "key_text ShiftEnter = [newline]"
| "key_text CtrlReturn = []"
| "key_text EnterKey = []"

definition typed_text :: "keys list \<Rightarrow> string" where
  "typed_text ks = concat (map key_text ks)"

section \<open>Typing-completion detector\<close>

text \<open>
  \<open>wait_for_typing_completion\<close> (lines 21-69) polls the input field and the clock.
  Both belong to the environment, so a run of the loop is determined by what each
  iteration observes: a \<open>tick\<close> holds the clock readings of one iteration, in the order
  the code takes them, and what reading the field gave.  Times are seconds.
\<close>

type_synonym time = rat

text \<open>
  Lines 31-32: \<open>safe_find_input(driver)\<close>, then
  \<open>get_attribute('textContent') or current_input.text\<close>.  Either call may raise
  (\<open>Unreadable\<close>); otherwise the attribute is \<open>None\<close> or a string, and the element's
  text is used when the attribute is \<open>None\<close> or empty.
\<close>

datatype reading = Unreadable exn | Element_text "string option" string

definition text_of :: "string option \<Rightarrow> string \<Rightarrow> string" where
  "text_of textContent element_text =
     (case textContent of
        None \<Rightarrow> element_text
      | Some s \<Rightarrow> if s = [] then element_text else s)"

record tick =
  clock_loop :: time
  seen :: reading
  clock_progress :: time
  clock_stall :: time
  clock_reset :: time

text \<open>
  \<open>clock_loop\<close> is \<open>time.time()\<close> in the loop condition (line 29), \<open>clock_progress\<close>
  the reading of line 50, \<open>clock_stall\<close> of line 53 and \<open>clock_reset\<close> of line 60.

  The loop variables:
\<close>

record monitor =
  last_text :: string
  stable_count :: nat
  last_progress_time :: time

text \<open>
  \<open>len(current_text) >= len(expected_text) * 0.95\<close> (and \<open>* 0.8\<close>, \<open>* 0.5\<close>) compares
  an integer with a floating-point product.  The doubles nearest to 0.95 and 0.8 are
  within a relative error of \<open>2^-54\<close> of 19/20 and 4/5 and 0.5 is exact, so for lengths
  below \<open>2^50\<close> the rounded product equals the exact one when that is an integer and
  otherwise stays strictly between the same two integers; the comparison is the exact one,
  written here over the naturals: \<open>at_least pct current expected\<close> is
  \<open>len(current) >= len(expected) * pct/100\<close>.
\<close>

definition at_least :: "nat \<Rightarrow> string \<Rightarrow> string \<Rightarrow> bool" where
  "at_least pct current expected = (pct * length expected \<le> 100 * length current)"

text \<open>
  Lines 36-50, the stability check.  \<open>Inl r\<close> is \<open>return r\<close>; \<open>Inr m\<close> goes on with
  the loop variables \<open>m\<close>.
\<close>

definition check_stable :: "string \<Rightarrow> monitor \<Rightarrow> string \<Rightarrow> time \<Rightarrow> bool + monitor" where
  "check_stable expected_text m current_text now =
     (if current_text = last_text m then
        (let m1 = m\<lparr>stable_count := stable_count m + 1\<rparr> in
         if 6 \<le> stable_count m1 then
           (if at_least 95 current_text expected_text then Inl True
            else if 0 < length current_text then Inr (m1\<lparr>stable_count := 0\<rparr>)
            else Inr m1)
         else Inr m1)
      else
        (let m1 = m\<lparr>stable_count := 0, last_text := current_text\<rparr> in
         if 0 < length current_text then Inr (m1\<lparr>last_progress_time := now\<rparr>)
         else Inr m1))"

text \<open>Lines 53-60, the stall check.\<close>

definition check_stalled ::
  "string \<Rightarrow> monitor \<Rightarrow> string \<Rightarrow> time \<Rightarrow> time \<Rightarrow> bool + monitor" where
  "check_stalled expected_text m current_text now_stall now_reset =
     (if 60 < now_stall - last_progress_time m then
        (if at_least 80 current_text expected_text then Inl True
         else Inr (m\<lparr>last_progress_time := now_reset\<rparr>))
      else Inr m)"

text \<open>
  One iteration of the loop body (lines 30-66).  The driver calls, which are what can
  raise, come before any loop variable is assigned, so the handler of line 63 continues
  with the variables unchanged.  Printing and sleeping are not modelled here: the time
  that passes shows in the next clock reading.
\<close>

definition poll :: "string \<Rightarrow> monitor \<Rightarrow> tick \<Rightarrow> bool + monitor" where
  "poll expected_text m k =
     (case seen k of
        Unreadable e \<Rightarrow> Inr m
      | Element_text textContent element_text \<Rightarrow>
          (let current_text = strip (text_of textContent element_text) in
           case check_stable expected_text m current_text (clock_progress k) of
             Inl r \<Rightarrow> Inl r
           | Inr m1 \<Rightarrow>
               check_stalled expected_text m1 current_text (clock_stall k) (clock_reset k)))"

text \<open>
  The \<open>while\<close> loop of line 29.  The result is \<open>None\<close> when the observations run out
  while the loop is still polling: the run is longer than the stream given.
\<close>

fun monitor_loop ::
  "string \<Rightarrow> time \<Rightarrow> time \<Rightarrow> monitor \<Rightarrow> tick list \<Rightarrow> bool option" where
  "monitor_loop expected_text start_time max_wait m [] = None"
| "monitor_loop expected_text start_time max_wait m (k # ks) =
     (if clock_loop k - start_time < max_wait then
        (case poll expected_text m k of
           Inl r \<Rightarrow> Some r
         | Inr m1 \<Rightarrow> monitor_loop expected_text start_time max_wait m1 ks)
      else Some False)"

text \<open>\<open>start_time\<close> is the clock reading of line 24.\<close>

definition wait_for_typing_completion ::
  "string \<Rightarrow> time \<Rightarrow> time \<Rightarrow> tick list \<Rightarrow> bool option" where
  "wait_for_typing_completion expected_text max_wait start_time ticks =
     monitor_loop expected_text start_time max_wait
       \<lparr>last_text = [], stable_count = 0, last_progress_time = start_time\<rparr> ticks"

text \<open>
  The same loop, read for its variables instead of its result: the values of
  \<open>last_text\<close>, \<open>stable_count\<close> and \<open>last_progress_time\<close> after the iterations given,
  when the loop is still polling after them, and \<open>None\<close> when it has returned.
\<close>

fun loop_variables ::
  "string \<Rightarrow> time \<Rightarrow> time \<Rightarrow> monitor \<Rightarrow> tick list \<Rightarrow> monitor option" where
  "loop_variables expected_text start_time max_wait m [] = Some m"
| "loop_variables expected_text start_time max_wait m (k # ks) =
     (if clock_loop k - start_time < max_wait then
        (case poll expected_text m k of
           Inl r \<Rightarrow> None
         | Inr m1 \<Rightarrow> loop_variables expected_text start_time max_wait m1 ks)
      else None)"

definition typing_variables ::
  "string \<Rightarrow> time \<Rightarrow> time \<Rightarrow> tick list \<Rightarrow> monitor option" where
  "typing_variables expected_text max_wait start_time samples =
     loop_variables expected_text start_time max_wait
       \<lparr>last_text = [], stable_count = 0, last_progress_time = start_time\<rparr> samples"

text \<open>
  A scenario helper: an iteration that takes all its clock readings at the instant \<open>t\<close>
  and finds the field showing \<open>s\<close>.
\<close>

definition sample :: "time \<Rightarrow> string \<Rightarrow> tick" where
  "sample t s =
     \<lparr>clock_loop = t, seen = Element_text (Some s) s,
      clock_progress = t, clock_stall = t, clock_reset = t\<rparr>"

text \<open>What an iteration makes of its reading: the stripped text, if the read succeeded.\<close>

definition observed :: "tick \<Rightarrow> string option" where
  "observed k =
     (case seen k of
        Unreadable e \<Rightarrow> None
      | Element_text textContent element_text \<Rightarrow> Some (strip (text_of textContent element_text)))"

text \<open>
  Two predicates for statements about runs: an iteration that starts before the ceiling
  and reads the (stripped) text \<open>cur\<close>; and such an iteration for the text the loop
  already holds, taken while the stall timer has not yet expired.
\<close>

definition steady :: "string \<Rightarrow> time \<Rightarrow> time \<Rightarrow> tick \<Rightarrow> bool" where
  "steady cur start_time max_wait k = (clock_loop k - start_time < max_wait \<and> observed k = Some cur)"

definition quiet :: "monitor \<Rightarrow> time \<Rightarrow> time \<Rightarrow> tick \<Rightarrow> bool" where
  "quiet m start_time max_wait k =
     (steady (last_text m) start_time max_wait k \<and> clock_stall k - last_progress_time m \<le> 60)"

text \<open>
  The specification describes a run by its stream of samples: the text is ``unchanged for
  6 consecutive samples'', nothing has changed ``for 60 seconds''.  The definitions below
  say this of the stream alone, without the loop; the claims about the detector compare
  them with the loop variables.

  \<open>history\<close> is the sequence of texts observed, the unreadable samples left out and the
  empty text the detector starts from put first.  \<open>unchanged_run cur h\<close> counts the
  observations at the end of \<open>h\<close> that all equal \<open>cur\<close>.
\<close>

definition history :: "tick list \<Rightarrow> string list" where
  "history ks = [] # List.map_filter observed ks"

definition unchanged_run :: "string \<Rightarrow> string list \<Rightarrow> nat" where
  "unchanged_run cur h = length (takeWhile (\<lambda>t. t = cur) (rev h))"

text \<open>
  The stability counter in these terms: the number of samples for which the latest text
  has repeated the observation before it, starting again from 0 after every sixth repeat
  of a non-empty text.
\<close>

definition steady_count :: "string list \<Rightarrow> nat" where
  "steady_count h =
     (let r = unchanged_run (last h) h - 1 in if last h = [] then r else r mod 6)"

text \<open>
  The stall timer in these terms: the clock reading from which the 60 seconds are counted.
  It starts at the detector's start; a sample whose text differs from the observation
  before it and is not empty moves it to that sample's \<open>clock_progress\<close>; a sample at
  which the 60 seconds have passed and the text is under 80% moves it to that sample's
  \<open>clock_reset\<close>.
\<close>

definition timer_step :: "string \<Rightarrow> string \<Rightarrow> time \<Rightarrow> tick \<Rightarrow> string \<Rightarrow> time" where
  "timer_step expected previous t k cur =
     (let t1 = (if cur = previous \<or> cur = [] then t else clock_progress k)
      in if 60 < clock_stall k - t1 \<and> \<not> at_least 80 cur expected then clock_reset k else t1)"

fun stall_timer_from :: "string \<Rightarrow> string \<Rightarrow> time \<Rightarrow> tick list \<Rightarrow> time" where
  "stall_timer_from expected previous t [] = t"
| "stall_timer_from expected previous t (k # ks) =
     (case observed k of
        None \<Rightarrow> stall_timer_from expected previous t ks
      | Some cur \<Rightarrow> stall_timer_from expected cur (timer_step expected previous t k cur) ks)"

definition stall_timer :: "string \<Rightarrow> time \<Rightarrow> tick list \<Rightarrow> time" where
  "stall_timer expected start_time ks = stall_timer_from expected [] start_time ks"

text \<open>
  The loop variables \<open>m\<close> agree with a stream whose history is \<open>h\<close> and whose stall timer
  stands at \<open>t\<close>; a text of at least 95% has not yet repeated more than 6 times.
\<close>

definition agrees :: "string \<Rightarrow> monitor \<Rightarrow> string list \<Rightarrow> time \<Rightarrow> bool" where
  "agrees e m h t =
     (h \<noteq> [] \<and> last_text m = last h \<and> stable_count m = steady_count h \<and>
      last_progress_time m = t \<and>
      (at_least 95 (last h) e \<longrightarrow> unchanged_run (last h) h < Suc 6))"

text \<open>
  Three more predicates on samples: one taken before the ceiling; one that repeats the
  text \<open>cur\<close> no more than 60 seconds after \<open>since\<close>; and one that, if readable, shows a
  text under \<open>pct\<close> percent of the expected length.
\<close>

definition in_time :: "time \<Rightarrow> time \<Rightarrow> tick \<Rightarrow> bool" where
  "in_time start_time max_wait k = (clock_loop k - start_time < max_wait)"

definition calm :: "string \<Rightarrow> time \<Rightarrow> time \<Rightarrow> time \<Rightarrow> tick \<Rightarrow> bool" where
  "calm cur since start_time max_wait k =
     (steady cur start_time max_wait k \<and> clock_stall k - since \<le> 60)"

definition below :: "nat \<Rightarrow> string \<Rightarrow> tick \<Rightarrow> bool" where
  "below pct expected k =
     (case observed k of None \<Rightarrow> True | Some cur \<Rightarrow> \<not> at_least pct cur expected)"

section \<open>Driver calls and their trace\<close>

text \<open>
  The browser is the environment of the program.  What each driver call returns or raises
  in a run is an input of the model; what the program does to the browser is recorded as a
  trace of actions.  The trace holds the calls that act on the session and the page and the
  lookups of the submission flow; the reads inside the polling loops are not recorded.
\<close>

datatype selector = Input_div | Research_testid | Submit_testid | Submit_aria

datatype control = Input_field | Research_button | Submit_button | Copy_button

datatype action =
    Launch
  | Open_page
  | Quit
  | Sleep time
  | Find selector
  | Read_field
  | Click control
  | Script_click control
  | Forced_click control
  | Clear
  | Send_keys keys
  | Scroll
  | Resize
  | Read_clipboard

text \<open>
  A piece of the program yields a value or raises, and leaves a trace.  \<open>and_then\<close> is
  sequencing, \<open>handle\<close> is \<open>try ... except Exception as e\<close>, \<open>ensure\<close> is
  \<open>try ... finally\<close>; \<open>act a outcome\<close> is one driver call, with what it did in this
  run (\<open>None\<close>: it returned, \<open>Some e\<close>: it raised \<open>e\<close>).
\<close>

type_synonym 'a run = "(exn + 'a) \<times> action list"

definition ret :: "'a \<Rightarrow> 'a run" where
  "ret x = (Inr x, [])"

definition raise :: "exn \<Rightarrow> 'a run" where
  "raise e = (Inl e, [])"

definition act :: "action \<Rightarrow> exn option \<Rightarrow> unit run" where
  "act a outcome = (case outcome of None \<Rightarrow> (Inr (), [a]) | Some e \<Rightarrow> (Inl e, [a]))"

definition sleep :: "time \<Rightarrow> unit run" where
  "sleep t = (Inr (), [Sleep t])"

definition after :: "action list \<Rightarrow> 'a \<times> action list \<Rightarrow> 'a \<times> action list" where
  "after l r = (fst r, l @ snd r)"

definition and_then :: "'a run \<Rightarrow> ('a \<Rightarrow> 'b run) \<Rightarrow> 'b run" where
  "and_then m f = (case fst m of Inl e \<Rightarrow> (Inl e, snd m) | Inr x \<Rightarrow> after (snd m) (f x))"

definition before :: "'a run \<Rightarrow> 'b run \<Rightarrow> 'b run" where
  "before m n = and_then m (\<lambda>x. n)"

definition handle :: "'a run \<Rightarrow> (exn \<Rightarrow> 'a run) \<Rightarrow> 'a run" where
  "handle m h = (case fst m of Inl e \<Rightarrow> after (snd m) (h e) | Inr x \<Rightarrow> m)"

definition ensure :: "'a run \<Rightarrow> unit run \<Rightarrow> 'a run" where
  "ensure m f = (case fst f of Inl e \<Rightarrow> (Inl e, snd m @ snd f) | Inr u \<Rightarrow> (fst m, snd m @ snd f))"

text \<open>
  \<open>find_element\<close> followed by \<open>is_displayed()\<close>: the lookup raised, or it returned an
  element whose \<open>is_displayed()\<close> raised or answered.
\<close>

datatype lookup = Missing exn | Present "exn + bool"

section \<open>Prompt submitter\<close>

subsection \<open>Entering the prompt (lines 126-157)\<close>

record typing_env =
  focus_find :: "exn option"
  focus_click :: "exn option"
  clear_find :: "exn option"
  clear_field :: "exn option"
  key_sends :: "nat \<Rightarrow> exn option"
  start_clock :: time
  ticks :: "tick list"
  final_reading :: reading

text \<open>
  \<open>key_sends i\<close> is the outcome of the \<open>i\<close>-th \<open>send_keys\<close> call of the typing phase;
  \<open>start_clock\<close> and \<open>ticks\<close> are what the detector observes; \<open>final_reading\<close> is the
  read of lines 150-151.
\<close>

fun send_all :: "(nat \<Rightarrow> exn option) \<Rightarrow> nat \<Rightarrow> keys list \<Rightarrow> unit run" where
  "send_all outcome i [] = ret ()"
| "send_all outcome i (x # xs) =
     before (act (Send_keys x) (outcome i)) (send_all outcome (Suc i) xs)"

definition enter_prompt :: "typing_env \<Rightarrow> string \<Rightarrow> unit run" where
  "enter_prompt env contentToType =
     before (act (Find Input_div) (focus_find env))
    (before (act (Click Input_field) (focus_click env))
    (before (sleep (1/2))
    (before (act (Find Input_div) (clear_find env))
    (before (act Clear (clear_field env))
            (send_all (key_sends env) 0 (typing_keys contentToType))))))"

text \<open>\<open>safe_find_input\<close> and the read of the element's text, as one step.\<close>

definition read_field :: "reading \<Rightarrow> string run" where
  "read_field r =
     (case r of
        Unreadable e \<Rightarrow> (Inl e, [Read_field])
      | Element_text textContent element_text \<Rightarrow> (Inr (text_of textContent element_text), [Read_field]))"

text \<open>
  Lines 148-157, run when the detector returned \<open>False\<close>.  The exception of line 154 is
  raised inside the \<open>try\<close> and replaced by the handler's.
\<close>

definition final_check :: "reading \<Rightarrow> string \<Rightarrow> unit run" where
  "final_check r contentToType =
     handle
       (and_then (read_field r)
          (\<lambda>final_text.
             if \<not> at_least 50 (strip final_text) contentToType
             then raise (Exception ''Typing failed - text is severely incomplete even after extended wait'')
             else ret ()))
       (\<lambda>final_check_error. raise (Exception ''Cannot verify text completion after extended wait''))"

subsection \<open>Research mode (lines 71-120)\<close>

record research_env =
  research_lookup :: "nat \<Rightarrow> lookup"
  research_click :: "exn option"
  research_script_click :: "exn option"

text \<open>
  The \<open>for attempt in range(max_attempts)\<close> loop of lines 80-94.  \<open>research_button\<close>
  says whether the variable holds an element.  The result \<open>Inl r\<close> is \<open>return r\<close> from
  inside the loop; \<open>Inr b\<close> is the loop left by \<open>break\<close> or at its end.
\<close>

fun research_attempts ::
  "(nat \<Rightarrow> lookup) \<Rightarrow> nat \<Rightarrow> nat list \<Rightarrow> bool \<Rightarrow> (bool + bool) \<times> action list" where
  "research_attempts look max_attempts [] research_button = (Inr research_button, [])"
| "research_attempts look max_attempts (attempt # rest) research_button =
     (case look attempt of
        Present (Inr True) \<Rightarrow> (Inr True, [Find Research_testid])
      | Present (Inr False) \<Rightarrow>
          after [Find Research_testid] (research_attempts look max_attempts rest False)
      | Present (Inl e) \<Rightarrow>
          (if attempt < max_attempts - 1
           then after [Find Research_testid, Sleep 1]
                  (research_attempts look max_attempts rest True)
           else (Inl False, [Find Research_testid]))
      | Missing e \<Rightarrow>
          (if attempt < max_attempts - 1
           then after [Find Research_testid, Sleep 1]
                  (research_attempts look max_attempts rest research_button)
           else (Inl False, [Find Research_testid])))"

text \<open>
  The function catches every exception (line 118), so it returns a truth value and never
  raises.
\<close>

definition select_research_mode :: "research_env \<Rightarrow> bool \<times> action list" where
  "select_research_mode env =
     (case research_attempts (research_lookup env) 3 [0..<3] False of
        (Inl r, l) \<Rightarrow> (r, l)
      | (Inr research_button, l) \<Rightarrow>
          (if research_button then
             (case research_click env of
                None \<Rightarrow> (True, l @ [Click Research_button, Sleep (1/2)])
              | Some click_error \<Rightarrow>
                  (case research_script_click env of
                     None \<Rightarrow>
                       (True, l @ [Click Research_button, Script_click Research_button, Sleep (1/2)])
                   | Some js_error \<Rightarrow>
                       (False, l @ [Click Research_button, Script_click Research_button])))
           else (False, l)))"

subsection \<open>Submission (lines 166-228)\<close>

record submit_env =
  submit_lookup :: "nat \<Rightarrow> lookup"
  submit_aria_lookup :: lookup
  submit_click :: "exn option"
  fallback_reading :: reading
  retype :: "exn option"
  ctrl_return :: "exn option"
  enter_find :: "exn option"
  enter_key :: "exn option"

text \<open>
  The \<open>while attempt < max_attempts and not submit_button\<close> loop of lines 172-195, over
  the values \<open>attempt\<close> takes after its increment.  \<open>submit_button\<close> says whether the
  variable holds an element: an element whose \<open>is_displayed()\<close> raises stays assigned.
\<close>

definition aria_fallback :: "lookup \<Rightarrow> bool \<Rightarrow> bool" where
  "aria_fallback aria submit_button =
     (case aria of
        Present (Inr shown) \<Rightarrow> shown
      | Present (Inl e) \<Rightarrow> True
      | Missing e \<Rightarrow> submit_button)"

fun submit_attempts ::
  "(nat \<Rightarrow> lookup) \<Rightarrow> lookup \<Rightarrow> nat \<Rightarrow> nat list \<Rightarrow> bool \<Rightarrow> bool \<times> action list" where
  "submit_attempts look aria max_attempts [] submit_button = (submit_button, [])"
| "submit_attempts look aria max_attempts (attempt # rest) submit_button =
     (if submit_button then (submit_button, [])
      else
        after [Sleep (1/5), Find Submit_testid]
          (case look attempt of
             Present (Inr True) \<Rightarrow> (True, [])
           | Present (Inr False) \<Rightarrow> submit_attempts look aria max_attempts rest False
           | Present (Inl e) \<Rightarrow>
               (if attempt = max_attempts
                then after [Find Submit_aria]
                       (submit_attempts look aria max_attempts rest (aria_fallback aria True))
                else submit_attempts look aria max_attempts rest True)
           | Missing e \<Rightarrow>
               (if attempt = max_attempts
                then after [Find Submit_aria]
                       (submit_attempts look aria max_attempts rest (aria_fallback aria submit_button))
                else submit_attempts look aria max_attempts rest submit_button)))"

text \<open>Lines 204-228, the keyboard fallback.\<close>

definition keyboard_fallback :: "submit_env \<Rightarrow> string \<Rightarrow> unit run" where
  "keyboard_fallback env contentToType =
     handle
       (and_then (read_field (fallback_reading env))
          (\<lambda>current_text.
             before
               (if length (strip current_text) = 0
                then before (act (Send_keys (Text contentToType)) (retype env)) (sleep (1/5))
                else ret ())
               (before (act (Send_keys CtrlReturn) (ctrl_return env)) (sleep 2))))
       (\<lambda>fallback_error.
          handle
            (before (act (Find Input_div) (enter_find env))
               (before (act (Send_keys EnterKey) (enter_key env)) (sleep 2)))
            (\<lambda>enter_error. raise (Exception ''Submit failed - all methods exhausted'')))"

text \<open>Lines 168-195: the loop run with \<open>max_attempts = 3\<close>.\<close>

definition find_submit_button :: "submit_env \<Rightarrow> bool \<times> action list" where
  "find_submit_button env =
     submit_attempts (submit_lookup env) (submit_aria_lookup env) 3 [1..<4] False"

definition submit_prompt :: "submit_env \<Rightarrow> string \<Rightarrow> unit run" where
  "submit_prompt env contentToType =
     (case find_submit_button env of
        (submit_button, l) \<Rightarrow>
          after l
            (if submit_button
             then before (act (Click Submit_button) (submit_click env)) (sleep 3)
             else keyboard_fallback env contentToType))"

subsection \<open>\<open>inputFieldCheck\<close> (lines 122-232)\<close>

record page =
  typing_part :: typing_env
  research_part :: research_env
  submit_part :: submit_env

text \<open>
  What follows the typing phase, given the detector's verdict.  The handler of line 230
  re-raises what it caught.
\<close>

definition after_typing :: "page \<Rightarrow> string \<Rightarrow> bool \<Rightarrow> bool \<Rightarrow> unit run" where
  "after_typing pg contentToType use_research_mode typing_completed =
     before
       (if \<not> typing_completed
        then final_check (final_reading (typing_part pg)) contentToType
        else ret ())
       (before
          (if use_research_mode
           then (Inr (), snd (select_research_mode (research_part pg)))
           else ret ())
          (submit_prompt (submit_part pg) contentToType))"

text \<open>
  The result is \<open>None\<close> when the detector's observations run out before it returns.
\<close>

definition inputFieldCheck :: "page \<Rightarrow> string \<Rightarrow> bool \<Rightarrow> unit run option" where
  "inputFieldCheck pg contentToType use_research_mode =
     (case enter_prompt (typing_part pg) contentToType of
        (Inl e, l) \<Rightarrow> Some (Inl e, l)
      | (Inr u, l) \<Rightarrow>
          (case wait_for_typing_completion contentToType 300
                  (start_clock (typing_part pg)) (ticks (typing_part pg)) of
             None \<Rightarrow> None
           | Some typing_completed \<Rightarrow>
               Some (after l (after_typing pg contentToType use_research_mode typing_completed))))"

section \<open>Result extractor (lines 235-485)\<close>

record extraction =
  scrolling :: "exn option"
  window_setup :: "exn option"
  copy_lookup :: "nat \<Rightarrow> nat \<Rightarrow> bool"
  extra_scroll :: "nat \<Rightarrow> exn option"
  scroll_into_view :: "exn option"
  copy_click :: "exn option"
  copy_script_click :: "exn option"
  copy_forced_click :: "exn option"
  clipboard :: "nat \<Rightarrow> exn + string option"

text \<open>
  Lines 243-356 wait for the generation to end and scroll to the bottom; they return
  nothing, the wait catches its exceptions, and the scripts of the scroll loop run outside
  any \<open>try\<close>: \<open>scrolling\<close> says whether one of them raised.  \<open>window_setup\<close> is lines
  360-362.  \<open>copy_lookup k j\<close> says whether, on attempt \<open>k\<close>, selector number \<open>j\<close> gave
  a visible and enabled button (a selector that raises counts as giving none, lines
  399-401); \<open>extra_scroll k\<close> is the script of line 409 after attempt \<open>k\<close>;
  \<open>copy_click\<close> and \<open>copy_script_click\<close> are the two clicks of lines 424-425 and of
  lines 434-435, taken together; \<open>clipboard i\<close> is
  \<open>navigator.clipboard.readText()\<close> on read \<open>i\<close>.

  The loop of lines 371-410:
\<close>

fun copy_attempts :: "extraction \<Rightarrow> nat \<Rightarrow> nat list \<Rightarrow> bool run" where
  "copy_attempts x max_copy_attempts [] = ret False"
| "copy_attempts x max_copy_attempts (copy_attempt # rest) =
     before (if 1 < copy_attempt then sleep 3 else ret ())
       (if list_ex (copy_lookup x copy_attempt) [0..<6] then ret True
        else
          before
            (if copy_attempt < max_copy_attempts
             then before (act Scroll (extra_scroll x copy_attempt)) (sleep 1)
             else ret ())
            (copy_attempts x max_copy_attempts rest))"

text \<open>Lines 420-457: three ways to click, the first that does not raise wins.\<close>

definition click_copy :: "extraction \<Rightarrow> unit run" where
  "click_copy x =
     handle (act (Click Copy_button) (copy_click x))
       (\<lambda>click_error.
          handle (act (Script_click Copy_button) (copy_script_click x))
            (\<lambda>js_error.
               handle (act (Forced_click Copy_button) (copy_forced_click x))
                 (\<lambda>force_error. raise (Exception ''All copy button click methods failed''))))"

text \<open>
  Lines 463-473: up to three reads; \<open>clipboard_content\<close> keeps its value when a read
  raises.  A value is truthy when it is a non-empty string.
\<close>

fun clipboard_reads ::
  "(nat \<Rightarrow> exn + string option) \<Rightarrow> nat list \<Rightarrow> string option \<Rightarrow> string option \<times> action list" where
  "clipboard_reads rd [] clipboard_content = (clipboard_content, [])"
| "clipboard_reads rd (clipboard_attempt # rest) clipboard_content =
     (case rd clipboard_attempt of
        Inr c \<Rightarrow>
          (if c \<noteq> None \<and> c \<noteq> Some [] then (c, [Read_clipboard])
           else after [Read_clipboard, Sleep 1] (clipboard_reads rd rest c))
      | Inl e \<Rightarrow>
          after (Read_clipboard # (if clipboard_attempt < 2 then [Sleep 1] else []))
            (clipboard_reads rd rest clipboard_content))"

definition getResult :: "extraction \<Rightarrow> string run" where
  "getResult x =
     before (act Scroll (scrolling x))
    (before (act Resize (window_setup x))
    (and_then (copy_attempts x 5 [1..<6])
       (\<lambda>copy_button.
          if copy_button then
            before (act Scroll (scroll_into_view x))
           (before (sleep 2)
           (before (click_copy x)
           (before (sleep 3)
              (case clipboard_reads (clipboard x) [0..<3] None of
                 (clipboard_content, l) \<Rightarrow>
                   after l
                     (case clipboard_content of
                        None \<Rightarrow>
                          raise (Exception ''Failed to read clipboard content after multiple attempts'')
                      | Some c \<Rightarrow>
                          (if c \<noteq> []
                           then (case cleaned_citation_string c of
                                   Inl e \<Rightarrow> raise e
                                 | Inr cleaned \<Rightarrow> ret cleaned)
                           else raise (Exception
                                  ''Failed to read clipboard content after multiple attempts'')))))))
          else raise (Exception ''No copy button found after 5 attempts''))))"

section \<open>Request handling (lines 488-531)\<close>

record session =
  launch :: "exn option"
  navigation :: "exn option"
  page_env :: page
  extraction_env :: extraction
  quit_call :: "exn option"

record prompt_request =
  prompt :: string
  use_research_mode :: bool

text \<open>
  \<open>str(e)\<close>: the message of a plain exception; for an \<open>HTTPException\<close> it is what the
  web framework defines, a parameter of the model.
\<close>

definition str_of :: "(nat \<Rightarrow> string \<Rightarrow> string) \<Rightarrow> exn \<Rightarrow> string" where
  "str_of str_http e =
     (case e of Exception msg \<Rightarrow> msg | HTTPException status_code detail \<Rightarrow> str_http status_code detail)"

definition processing_error :: "(nat \<Rightarrow> string \<Rightarrow> string) \<Rightarrow> exn \<Rightarrow> exn" where
  "processing_error str_http e =
     HTTPException 500 (''Error processing request: '' @ str_of str_http e)"

text \<open>
  \<open>run_perplexity\<close>.  When \<open>Driver(...)\<close> raises, \<open>driver\<close> is still \<open>None\<close> in the
  \<open>finally\<close> clause and nothing is quit; otherwise \<open>driver.quit()\<close> runs last on every
  path, and an exception it raises replaces the outcome.
\<close>

definition run_perplexity ::
  "(nat \<Rightarrow> string \<Rightarrow> string) \<Rightarrow> session \<Rightarrow> string \<Rightarrow> bool \<Rightarrow> string run option" where
  "run_perplexity str_http env prompt_text research =
     (case launch env of
        Some e \<Rightarrow> Some (raise (processing_error str_http e))
      | None \<Rightarrow>
          map_option
            (\<lambda>body. after [Launch]
               (ensure (handle body (\<lambda>e. raise (processing_error str_http e)))
                       (act Quit (quit_call env))))
            (case navigation env of
               Some e \<Rightarrow> Some (Inl e, [Open_page])
             | None \<Rightarrow>
                 map_option
                   (\<lambda>submitted. after [Open_page, Sleep 10]
                      (before submitted (getResult (extraction_env env))))
                   (inputFieldCheck (page_env env) prompt_text research)))"

text \<open>
  \<open>ask_perplexity\<close> returns the dictionary \<open>{"response": result}\<close> or raises
  \<open>HTTPException(status_code=500, detail=str(e))\<close>.
\<close>

datatype body = Response_field string | Detail_field string | Internal_server_error

definition ask_perplexity ::
  "(nat \<Rightarrow> string \<Rightarrow> string) \<Rightarrow> session \<Rightarrow> prompt_request \<Rightarrow> body run option" where
  "ask_perplexity str_http env request =
     map_option
       (\<lambda>r. handle (and_then r (\<lambda>result. ret (Response_field result)))
                    (\<lambda>e. raise (HTTPException 500 (str_of str_http e))))
       (run_perplexity str_http env (prompt request) (use_research_mode request))"

text \<open>
  Modelled from the spec: the web framework's rendering of what the handler returns or
  raises, which is no code of the repository (section 6: response 200 with
  \<open>{response: string}\<close>, response 500 with \<open>{detail: string}\<close>).  A returned
  dictionary is sent with status 200, an \<open>HTTPException\<close> with its status code and the
  body \<open>{"detail": detail}\<close>, any other exception as a bare status 500.
\<close>

definition http_reply :: "body run \<Rightarrow> nat \<times> body" where
  "http_reply r =
     (case fst r of
        Inr b \<Rightarrow> (200, b)
      | Inl (HTTPException status_code detail) \<Rightarrow> (status_code, Detail_field detail)
      | Inl (Exception msg) \<Rightarrow> (500, Internal_server_error))"

definition post_ask ::
  "(nat \<Rightarrow> string \<Rightarrow> string) \<Rightarrow> session \<Rightarrow> prompt_request \<Rightarrow> (nat \<times> body) option" where
  "post_ask str_http env request = map_option http_reply (ask_perplexity str_http env request)"

text \<open>
  Requests handled one after another, each with a session of its own: the trace of all
  of them.
\<close>

fun serve ::
  "(nat \<Rightarrow> string \<Rightarrow> string) \<Rightarrow> (session \<times> prompt_request) list \<Rightarrow> action list option" where
  "serve str_http [] = Some []"
| "serve str_http ((env, request) # rest) =
     (case ask_perplexity str_http env request of
        None \<Rightarrow> None
      | Some r \<Rightarrow> map_option (\<lambda>l. snd r @ l) (serve str_http rest))"

text \<open>
  A trace uses sessions properly when every action lies between a \<open>Launch\<close> and the
  \<open>Quit\<close> that follows it, no session is launched while another is live, and none is
  left live at the end.  \<open>live\<close> says whether a session is open.
\<close>

fun well_scoped :: "bool \<Rightarrow> action list \<Rightarrow> bool" where
  "well_scoped live [] = (\<not> live)"
| "well_scoped live (a # l) =
     (if a = Launch then \<not> live \<and> well_scoped True l
      else if a = Quit then live \<and> well_scoped False l
      else live \<and> well_scoped live l)"

section \<open>Vocabulary of the statements\<close>

text \<open>
  A trace without \<open>Launch\<close> and \<open>Quit\<close>: what happens inside one session.
\<close>

definition session_free :: "action list \<Rightarrow> bool" where
  "session_free l = (Launch \<notin> set l \<and> Quit \<notin> set l)"

text \<open>
  Outcomes of a lookup: it gave a visible element; it gave an element that is not
  displayed; it gave an element whose \<open>is_displayed()\<close> raised; the lookup itself raised.
  A lookup that leaves the variable holding an element is one of the first or the third
  kind.
\<close>


definition visible :: "lookup \<Rightarrow> bool" where
  "visible lk = (lk = Present (Inr True))"

definition missing :: "lookup \<Rightarrow> bool" where
  "missing lk = (case lk of Missing e \<Rightarrow> True | Present r \<Rightarrow> False)"

definition stale :: "lookup \<Rightarrow> bool" where
  "stale lk =
     (case lk of
        Missing e \<Rightarrow> False
      | Present r \<Rightarrow> (case r of Inl e \<Rightarrow> True | Inr shown \<Rightarrow> False))"







text \<open>The trace of the plain Enter path.\<close>

definition enter_trace :: "submit_env \<Rightarrow> action list" where
  "enter_trace env =
     Find Input_div #
       (if enter_find env = None
        then Send_keys EnterKey # (if enter_key env = None then [Sleep 2] else [])
        else [])"

text \<open>
  What the clipboard loop of lines 462-473 leaves in \<open>clipboard_content\<close>, and the runs
  of \<open>getResult\<close> that get as far as reading it: nothing before raised, a copy button was
  found, and one of the clicks went through.
\<close>

definition retrieved :: "extraction \<Rightarrow> string option" where
  "retrieved x = fst (clipboard_reads (clipboard x) [0..<3] None)"

definition reaches_clipboard :: "extraction \<Rightarrow> bool" where
  "reaches_clipboard x =
     (scrolling x = None \<and> window_setup x = None \<and>
      fst (copy_attempts x 5 [1..<6]) = Inr True \<and>
      scroll_into_view x = None \<and> fst (click_copy x) = Inr ())"

section \<open>Scenarios\<close>

text \<open>
  A run in which every driver call succeeds: the field shows the prompt at once and keeps
  it, the submit button is there, the answer is on the clipboard.
\<close>

definition smooth_typing :: "string \<Rightarrow> typing_env" where
  "smooth_typing shown =
     \<lparr>focus_find = None, focus_click = None, clear_find = None, clear_field = None,
      key_sends = (\<lambda>i. None), start_clock = 0,
      ticks = map (\<lambda>t. sample t shown) [1, 2, 3, 4, 5, 6, 7],
      final_reading = Element_text (Some shown) shown\<rparr>"

definition no_research :: research_env where
  "no_research =
     \<lparr>research_lookup = (\<lambda>attempt. Missing (Exception ''no such element'')),
      research_click = None, research_script_click = None\<rparr>"

definition smooth_submit :: submit_env where
  "smooth_submit =
     \<lparr>submit_lookup = (\<lambda>attempt. Present (Inr True)),
      submit_aria_lookup = Missing (Exception ''no such element''),
      submit_click = None,
      fallback_reading = Element_text None ''Explain X'',
      retype = None, ctrl_return = None, enter_find = None, enter_key = None\<rparr>"

definition smooth_extraction :: extraction where
  "smooth_extraction =
     \<lparr>scrolling = None, window_setup = None,
      copy_lookup = (\<lambda>k j. True), extra_scroll = (\<lambda>k. None), scroll_into_view = None,
      copy_click = None, copy_script_click = None, copy_forced_click = None,
      clipboard = (\<lambda>i. Inr (Some ''X is a letter. [1] source''))\<rparr>"

definition smooth_session :: session where
  "smooth_session =
     \<lparr>launch = None, navigation = None,
      page_env = \<lparr>typing_part = smooth_typing ''Explain X'',
                  research_part = no_research, submit_part = smooth_submit\<rparr>,
      extraction_env = smooth_extraction, quit_call = None\<rparr>"

definition plain_str :: "nat \<Rightarrow> string \<Rightarrow> string" where
  "plain_str status_code detail = detail"

text \<open>
  Variations: a field that stays at the text \<open>shown\<close> until the ceiling and is read as
  \<open>final\<close> afterwards; a research toggle that is found but cannot be clicked; a page
  without a submit button; one on which the keys fail too; and a submit button whose click
  raises.
\<close>

definition stuck_page :: "string \<Rightarrow> string \<Rightarrow> page" where
  "stuck_page shown final =
     \<lparr>typing_part = (smooth_typing shown)
        \<lparr>ticks := [sample 1 shown, sample 100 shown, sample 200 shown, sample 300 shown],
         final_reading := Element_text None final\<rparr>,
      research_part = no_research, submit_part = smooth_submit\<rparr>"

definition stubborn_research :: research_env where
  "stubborn_research =
     \<lparr>research_lookup = (\<lambda>attempt. Present (Inr True)),
      research_click = Some (Exception ''element click intercepted''),
      research_script_click = Some (Exception ''javascript error'')\<rparr>"

definition no_button :: submit_env where
  "no_button =
     smooth_submit\<lparr>submit_lookup := (\<lambda>attempt. Missing (Exception ''no such element''))\<rparr>"

definition dead_page :: submit_env where
  "dead_page =
     no_button\<lparr>ctrl_return := Some (Exception ''stale element''),
               enter_key := Some (Exception ''stale element'')\<rparr>"

definition blocked_button :: submit_env where
  "blocked_button = smooth_submit\<lparr>submit_click := Some (Exception ''element click intercepted'')\<rparr>"

text \<open>
  Further variations: a field found empty by the fallback, and a prompt of two lines;
  sessions whose submit click raises, whose launch raises, whose answer has no copy
  button, and whose page accepts no submission at all.
\<close>

definition cleared_field :: submit_env where
  "cleared_field = no_button\<lparr>fallback_reading := Element_text (Some '' '') []\<rparr>"

definition two_lines :: string where
  "two_lines = ''Explain X'' @ [newline] @ ''In two sentences''"

definition blocked_session :: session where
  "blocked_session =
     smooth_session\<lparr>page_env := (page_env smooth_session)\<lparr>submit_part := blocked_button\<rparr>\<rparr>"

definition unlaunched_session :: session where
  "unlaunched_session = smooth_session\<lparr>launch := Some (Exception ''chrome not found'')\<rparr>"

definition no_copy_session :: session where
  "no_copy_session =
     smooth_session\<lparr>extraction_env := smooth_extraction\<lparr>copy_lookup := (\<lambda>k j. False)\<rparr>\<rparr>"

definition dead_session :: session where
  "dead_session =
     smooth_session\<lparr>page_env := (page_env smooth_session)\<lparr>submit_part := dead_page\<rparr>\<rparr>"



definition plain_extraction :: extraction where
  "plain_extraction = smooth_extraction\<lparr>clipboard := (\<lambda>i. Inr (Some ''No marker here [2]''))\<rparr>"

section \<open>Properties of splitting\<close>

lemma split_from_nonempty: "split_from sep acc s \<noteq> []"
  by (induction sep acc s rule: split_from.induct) auto

lemma py_join_Cons: "ps \<noteq> [] \<Longrightarrow> py_join sep (p # ps) = p @ sep @ py_join sep ps"
  by (cases ps) auto

lemma join_split_from: "py_join sep (split_from sep acc s) = acc @ s"
proof (induction sep acc s rule: split_from.induct)
  case (1 sep acc)
  show ?case by simp
next
  case (2 sep acc c cs)
  show ?case
  proof (cases "sep \<noteq> [] \<and> prefix sep (c # cs)")
    case True
    then obtain rest where rest: "c # cs = sep @ rest"
      by (auto simp: prefix_def)
    have d: "drop (length sep) (c # cs) = rest"
      using rest by simp
    have ih: "py_join sep (split_from sep [] rest) = rest"
      using 2(1) True d by simp
    have "split_from sep acc (c # cs) = acc # split_from sep [] rest"
      using True d by simp
    then have "py_join sep (split_from sep acc (c # cs)) = acc @ sep @ rest"
      using ih by (simp add: py_join_Cons split_from_nonempty)
    then show ?thesis
      using rest by simp
  next
    case False
    then show ?thesis
      using 2(2) by auto
  qed
qed

lemma split_from_absent:
  "\<not> sublist sep s \<Longrightarrow> split_from sep acc s = [acc @ s]"
proof (induction s arbitrary: acc)
  case Nil
  show ?case by simp
next
  case (Cons c cs)
  have "\<not> prefix sep (c # cs)"
    using Cons.prems by (auto dest: prefix_imp_sublist)
  moreover have "\<not> sublist sep cs"
    using Cons.prems by (auto simp: sublist_Cons_right)
  ultimately show ?case
    using Cons.IH [of "acc @ [c]"] by simp
qed

lemma prefix_of_long_enough:
  "prefix sep (a @ b) \<Longrightarrow> length sep \<le> length a \<Longrightarrow> prefix sep a"
  by (metis prefix_append append_Nil2 append_eq_append_conv_if append_take_drop_id prefix_def)

lemma split_from_first:
  assumes "sep \<noteq> []" and "\<not> sublist sep (pre @ butlast sep)"
  shows "split_from sep acc (pre @ sep @ post) = (acc @ pre) # split_from sep [] post"
  using assms(2)
proof (induction pre arbitrary: acc)
  case Nil
  obtain c cs where sep: "sep = c # cs"
    using assms(1) by (cases sep) auto
  have "split_from sep acc ((c # cs) @ post) = acc # split_from sep [] post"
    using sep by simp
  then show ?case
    using sep by simp
next
  case (Cons c p)
  have "\<not> prefix sep (c # p @ sep @ post)"
  proof
    assume pre: "prefix sep (c # p @ sep @ post)"
    have "c # p @ sep @ post = (c # p @ butlast sep) @ ([last sep] @ post)"
      using assms(1) by simp
    moreover have "length sep \<le> length (c # p @ butlast sep)"
      by simp
    ultimately have "prefix sep (c # p @ butlast sep)"
      using pre prefix_of_long_enough by metis
    then show False
      using Cons.prems by (auto dest: prefix_imp_sublist)
  qed
  moreover have "\<not> sublist sep (p @ butlast sep)"
    using Cons.prems by (auto simp: sublist_Cons_right)
  ultimately show ?case
    using Cons.IH [of "acc @ [c]"] by simp
qed

lemma split_from_char_free:
  "c \<notin> set acc \<Longrightarrow> list_all (\<lambda>part. c \<notin> set part) (split_from [c] acc s)"
proof (induction "[c]" acc s rule: split_from.induct)
  case (1 acc)
  then show ?case by simp
next
  case (2 acc x xs)
  show ?case
  proof (cases "x = c")
    case True
    then show ?thesis
      using 2(1) 2(3) by simp
  next
    case False
    then show ?thesis
      using 2(2) 2(3) by simp
  qed
qed

section \<open>Properties of the typed key sequence\<close>

lemma enumerate_keys:
  "concat (map (\<lambda>(i, part). Text part # (if i < n + length parts - 1 then [ShiftEnter] else []))
               (enumerate n parts)) = soft_joined parts"
proof (induction parts arbitrary: n)
  case Nil
  show ?case by simp
next
  case (Cons p ps)
  show ?case
  proof (cases ps)
    case Nil
    then show ?thesis by simp
  next
    case (Cons q qs)
    have "n + length (p # ps) - 1 = Suc n + length ps - 1"
      by simp
    then show ?thesis
      using Cons.IH [of "Suc n"] Cons by simp
  qed
qed

lemma part_keys_soft_joined: "part_keys parts = soft_joined parts"
  using enumerate_keys [of 0 parts] by (simp add: part_keys_def)

lemma typed_text_soft_joined: "typed_text (soft_joined parts) = py_join [newline] parts"
  by (induction parts rule: soft_joined.induct) (simp_all add: typed_text_def)

lemma split_newline_absent:
  "newline \<notin> set s \<Longrightarrow> py_split [newline] s = [s]"
proof -
  assume a: "newline \<notin> set s"
  have "\<not> sublist [newline] s"
  proof
    assume "sublist [newline] s"
    then obtain ps ss where "s = ps @ [newline] @ ss"
      by (auto simp: sublist_def)
    then show False
      using a by simp
  qed
  then show ?thesis
    using split_from_absent [of "[newline]" s "[]"] by (simp add: py_split_def)
qed

lemma typing_roundtrip_parts:
  "typing_keys content = soft_joined (py_split [newline] content) \<and>
   list_all (\<lambda>part. newline \<notin> set part) (py_split [newline] content) \<and>
   py_join [newline] (py_split [newline] content) = content \<and>
   typed_text (typing_keys content) = content"
proof -
  have keys: "typing_keys content = soft_joined (py_split [newline] content)"
  proof (cases "newline \<in> set content")
    case True
    then show ?thesis
      by (simp add: typing_keys_def part_keys_soft_joined)
  next
    case False
    then show ?thesis
      by (simp add: typing_keys_def split_newline_absent)
  qed
  have free: "list_all (\<lambda>part. newline \<notin> set part) (py_split [newline] content)"
    using split_from_char_free [of newline "[]" content] by (simp add: py_split_def)
  have join: "py_join [newline] (py_split [newline] content) = content"
    using join_split_from [of "[newline]" "[]" content] by (simp add: py_split_def)
  have "typed_text (typing_keys content) = content"
    using keys join by (simp add: typed_text_soft_joined)
  then show ?thesis
    using keys free join by simp
qed

section \<open>Properties of the typing-completion detector\<close>

lemma poll_observed:
  "observed k = Some cur \<Longrightarrow>
   poll e m k =
     (case check_stable e m cur (clock_progress k) of
        Inl r \<Rightarrow> Inl r
      | Inr m1 \<Rightarrow> check_stalled e m1 cur (clock_stall k) (clock_reset k))"
  by (auto simp: observed_def poll_def split: reading.splits)

lemma poll_unreadable: "observed k = None \<Longrightarrow> poll e m k = Inr m"
  by (auto simp: observed_def poll_def split: reading.splits)

lemma at_least_95_80: "at_least 95 cur e \<Longrightarrow> at_least 80 cur e"
  by (simp add: at_least_def)

lemma poll_success_iff:
  "observed k = Some cur \<Longrightarrow>
   (poll e m k = Inl True \<longleftrightarrow>
      (cur = last_text m \<and> 6 \<le> stable_count m + 1 \<and> at_least 95 cur e) \<or>
      (60 < clock_stall k -
              (if cur = last_text m \<or> cur = [] then last_progress_time m else clock_progress k) \<and>
       at_least 80 cur e))"
  by (auto simp: poll_observed check_stable_def check_stalled_def Let_def at_least_95_80)

lemma poll_never_gives_up: "poll e m k \<noteq> Inl False"
  by (cases "observed k")
     (auto simp: poll_observed poll_unreadable check_stable_def check_stalled_def Let_def)

lemma six_stable_samples:
  "ks \<noteq> [] \<Longrightarrow> 6 \<le> stable_count m + length ks \<Longrightarrow>
   list_all (steady (last_text m) s w) ks \<Longrightarrow> at_least 95 (last_text m) e \<Longrightarrow>
   monitor_loop e s w m (ks @ rest) = Some True"
proof (induction ks arbitrary: m)
  case Nil
  then show ?case by simp
next
  case (Cons k ks)
  have obs: "observed k = Some (last_text m)" and time: "clock_loop k - s < w"
    using Cons.prems(3) by (simp_all add: steady_def)
  show ?case
  proof (cases "poll e m k")
    case (Inl r)
    then have "r" using poll_never_gives_up [of e m k] by (cases r) auto
    then show ?thesis using Inl time by simp
  next
    case (Inr m1)
    have m1: "m1 = m\<lparr>stable_count := stable_count m + 1\<rparr>" and small: "stable_count m + 1 < 6"
      using Inr obs Cons.prems(4)
      by (auto simp: poll_observed check_stable_def check_stalled_def Let_def at_least_95_80
          split: if_splits)
    have "ks \<noteq> []" using small Cons.prems(2) by auto
    moreover have "6 \<le> stable_count m1 + length ks" using m1 Cons.prems(2) by simp
    moreover have "list_all (steady (last_text m1) s w) ks" using m1 Cons.prems(3) by simp
    moreover have "at_least 95 (last_text m1) e" using m1 Cons.prems(4) by simp
    ultimately have "monitor_loop e s w m1 (ks @ rest) = Some True"
      by (rule Cons.IH)
    then show ?thesis using Inr time by simp
  qed
qed

lemma frozen_check_stable:
  "\<not> at_least 95 (last_text m) e \<Longrightarrow>
   \<exists>n. check_stable e m (last_text m) t = Inr (m\<lparr>stable_count := n\<rparr>)"
  by (auto simp: check_stable_def Let_def)

lemma quiet_stable_count: "quiet (m\<lparr>stable_count := n\<rparr>) s w = quiet m s w"
  by (rule ext) (simp add: quiet_def)

lemma frozen_quiet:
  "list_all (quiet m s w) pre \<Longrightarrow> \<not> at_least 95 (last_text m) e \<Longrightarrow>
   \<exists>n. monitor_loop e s w m (pre @ rest) = monitor_loop e s w (m\<lparr>stable_count := n\<rparr>) rest"
proof (induction pre arbitrary: m)
  case Nil
  have "m\<lparr>stable_count := stable_count m\<rparr> = m" by simp
  then show ?case by (metis append_Nil)
next
  case (Cons k pre)
  have obs: "observed k = Some (last_text m)" and time: "clock_loop k - s < w"
    and calm: "clock_stall k - last_progress_time m \<le> 60"
    using Cons.prems(1) by (simp_all add: quiet_def steady_def)
  obtain n where n: "check_stable e m (last_text m) (clock_progress k) = Inr (m\<lparr>stable_count := n\<rparr>)"
    using frozen_check_stable [OF Cons.prems(2)] by blast
  let ?m1 = "m\<lparr>stable_count := n\<rparr>"
  have step: "poll e m k = Inr ?m1"
    using obs n calm by (simp add: poll_observed check_stalled_def)
  have "list_all (quiet ?m1 s w) pre"
    using Cons.prems(1) by (simp add: quiet_stable_count)
  moreover have "\<not> at_least 95 (last_text ?m1) e"
    using Cons.prems(2) by simp
  ultimately obtain n' where
    "monitor_loop e s w ?m1 (pre @ rest) = monitor_loop e s w (?m1\<lparr>stable_count := n'\<rparr>) rest"
    using Cons.IH [of ?m1] by blast
  then have "monitor_loop e s w m ((k # pre) @ rest) = monitor_loop e s w (m\<lparr>stable_count := n'\<rparr>) rest"
    using step time by simp
  then show ?case by blast
qed

lemma frozen_stall:
  assumes "list_all (quiet m s w) pre" and "steady (last_text m) s w k"
    and "60 < clock_stall k - last_progress_time m" and "\<not> at_least 95 (last_text m) e"
  shows "\<exists>n. monitor_loop e s w m (pre @ k # rest) =
           (if at_least 80 (last_text m) e then Some True
            else monitor_loop e s w
                   \<lparr>last_text = last_text m, stable_count = n, last_progress_time = clock_reset k\<rparr> rest)"
proof -
  obtain n where pre: "monitor_loop e s w m (pre @ k # rest) = monitor_loop e s w (m\<lparr>stable_count := n\<rparr>) (k # rest)"
    using frozen_quiet [OF assms(1) assms(4), of "k # rest"] by blast
  let ?m0 = "m\<lparr>stable_count := n\<rparr>"
  obtain n' where n': "check_stable e ?m0 (last_text ?m0) (clock_progress k) = Inr (?m0\<lparr>stable_count := n'\<rparr>)"
    using frozen_check_stable [of ?m0 e] assms(4) by auto
  have obs: "observed k = Some (last_text m)" and time: "clock_loop k - s < w"
    using assms(2) by (simp_all add: steady_def)
  have "poll e ?m0 k =
      (if at_least 80 (last_text m) e then Inl True
       else Inr \<lparr>last_text = last_text m, stable_count = n', last_progress_time = clock_reset k\<rparr>)"
    using obs n' assms(3) by (simp add: poll_observed check_stalled_def)
  then have "monitor_loop e s w ?m0 (k # rest) =
      (if at_least 80 (last_text m) e then Some True
       else monitor_loop e s w
              \<lparr>last_text = last_text m, stable_count = n', last_progress_time = clock_reset k\<rparr> rest)"
    using time by simp
  then show ?thesis using pre by metis
qed

lemma monitor_loop_returns:
  "list_ex (\<lambda>k. max_wait \<le> clock_loop k - start_time) ks \<Longrightarrow>
   monitor_loop e start_time max_wait m ks \<noteq> None"
  by (induction ks arbitrary: m) (auto split: sum.splits)

lemma loop_none_iff:
  "monitor_loop e s w m ks = None \<longleftrightarrow> loop_variables e s w m ks \<noteq> None"
  by (induction ks arbitrary: m) (auto split: sum.splits)

lemma loop_append:
  "loop_variables e s w m ks = Some m' \<Longrightarrow>
   monitor_loop e s w m (ks @ rest) = monitor_loop e s w m' rest"
  by (induction ks arbitrary: m) (auto split: sum.splits if_splits)

lemma variables_append:
  "loop_variables e s w m ks = Some m' \<Longrightarrow>
   loop_variables e s w m (ks @ rest) = loop_variables e s w m' rest"
  by (induction ks arbitrary: m) (auto split: sum.splits if_splits)

lemma unchanged_run_snoc:
  "unchanged_run cur (h @ [t]) = (if t = cur then Suc (unchanged_run cur h) else 0)"
  by (simp add: unchanged_run_def)

lemma unchanged_run_last:
  "h \<noteq> [] \<Longrightarrow> last h \<noteq> cur \<Longrightarrow> unchanged_run cur h = 0"
  by (cases h rule: rev_cases) (simp_all add: unchanged_run_def)

lemma unchanged_run_pos:
  "h \<noteq> [] \<Longrightarrow> 0 < unchanged_run (last h) h"
  by (cases h rule: rev_cases) (simp_all add: unchanged_run_def)

lemma agrees_initial:
  "agrees e \<lparr>last_text = [], stable_count = 0, last_progress_time = t0\<rparr> [[]] t0"
  by (simp add: agrees_def steady_count_def unchanged_run_def)

lemma check_stable_continue:
  "check_stable e m cur now = Inr m1 \<Longrightarrow>
   last_text m1 = cur \<and>
   stable_count m1 =
     (if cur = last_text m
      then (if 6 \<le> stable_count m + 1 \<and> cur \<noteq> [] then 0 else stable_count m + 1)
      else 0) \<and>
   last_progress_time m1 =
     (if cur = last_text m \<or> cur = [] then last_progress_time m else now)"
  unfolding check_stable_def Let_def
  by (cases "cur = last_text m"; cases "cur = []"; cases "6 \<le> stable_count m + 1";
      cases "at_least 95 cur e") auto

lemma check_stalled_continue:
  "check_stalled e m cur t r = Inr m1 \<Longrightarrow>
   last_text m1 = last_text m \<and> stable_count m1 = stable_count m \<and>
   last_progress_time m1 =
     (if 60 < t - last_progress_time m \<and> \<not> at_least 80 cur e then r
      else last_progress_time m)"
  unfolding check_stalled_def
  by (cases "60 < t - last_progress_time m"; cases "at_least 80 cur e") auto

lemma poll_continue:
  assumes "observed k = Some cur" and "poll e m k = Inr m1"
  shows "last_text m1 = cur \<and>
   stable_count m1 =
     (if cur = last_text m
      then (if 6 \<le> stable_count m + 1 \<and> cur \<noteq> [] then 0 else stable_count m + 1)
      else 0) \<and>
   last_progress_time m1 = timer_step e (last_text m) (last_progress_time m) k cur"
proof -
  obtain m0 where a: "check_stable e m cur (clock_progress k) = Inr m0"
    and b: "check_stalled e m0 cur (clock_stall k) (clock_reset k) = Inr m1"
    using assms by (cases "check_stable e m cur (clock_progress k)") (simp_all add: poll_observed)
  note a' = check_stable_continue [OF a]
  note b' = check_stalled_continue [OF b]
  have "last_text m1 = cur"
    using a' b' by simp
  moreover have "stable_count m1 =
     (if cur = last_text m
      then (if 6 \<le> stable_count m + 1 \<and> cur \<noteq> [] then 0 else stable_count m + 1)
      else 0)"
    using a' b' by simp
  moreover have "last_progress_time m1 = timer_step e (last_text m) (last_progress_time m) k cur"
    using a' b' by (simp add: timer_step_def Let_def)
  ultimately show ?thesis
    by simp
qed

lemma agrees_count:
  assumes "agrees e m h t" and "at_least 95 (last h) e"
  shows "Suc (stable_count m) = unchanged_run (last h) h"
proof -
  have h: "h \<noteq> []"
    using assms(1) by (simp add: agrees_def)
  have pos: "0 < unchanged_run (last h) h"
    using unchanged_run_pos [OF h] .
  have small: "unchanged_run (last h) h < Suc 6"
    using assms by (simp add: agrees_def)
  have sc: "stable_count m = steady_count h"
    using assms(1) by (simp add: agrees_def)
  have "steady_count h = unchanged_run (last h) h - 1"
    using small by (simp add: steady_count_def Let_def)
  then show ?thesis
    using pos sc by simp
qed

lemma agrees_success:
  assumes "agrees e m h t" and "observed k = Some cur"
  shows "poll e m k = Inl True \<longleftrightarrow>
     (6 \<le> unchanged_run cur h \<and> at_least 95 cur e) \<or>
     (60 < clock_stall k - (if cur = last h \<or> cur = [] then t else clock_progress k) \<and>
      at_least 80 cur e)"
proof -
  have h: "h \<noteq> []" and lt: "last_text m = last h" and lp: "last_progress_time m = t"
    using assms(1) by (simp_all add: agrees_def)
  have "(cur = last_text m \<and> 6 \<le> stable_count m + 1 \<and> at_least 95 cur e) \<longleftrightarrow>
      (6 \<le> unchanged_run cur h \<and> at_least 95 cur e)"
  proof (cases "cur = last h")
    case True
    then show ?thesis
      using agrees_count [OF assms(1)] lt by auto
  next
    case False
    then show ?thesis
      using unchanged_run_last [OF h, of cur] lt by auto
  qed
  then show ?thesis
    unfolding poll_success_iff [OF assms(2), of e m] lt lp by simp
qed

lemma steady_count_changed:
  "h \<noteq> [] \<Longrightarrow> cur \<noteq> last h \<Longrightarrow> steady_count (h @ [cur]) = 0"
  by (simp add: steady_count_def unchanged_run_snoc unchanged_run_last)

lemma steady_count_same:
  "steady_count (h @ [last h]) =
     (if last h = [] then unchanged_run (last h) h else unchanged_run (last h) h mod 6)"
  by (simp add: steady_count_def unchanged_run_snoc)

lemma mod6_step:
  fixes r :: nat
  assumes "0 < r"
  shows "r mod 6 = (if 6 \<le> (r - 1) mod 6 + 1 then 0 else (r - 1) mod 6 + 1)"
proof -
  obtain n where r: "r = Suc n"
    using assms by (cases r) simp_all
  have less: "n mod 6 < 6"
    by simp
  have "Suc n mod 6 = (if Suc (n mod 6) = 6 then 0 else Suc (n mod 6))"
    by (rule mod_Suc)
  then show ?thesis
    using less unfolding r by auto
qed

lemma steady_count_next:
  assumes "h \<noteq> []"
  shows "steady_count (h @ [last h]) =
     (if 6 \<le> steady_count h + 1 \<and> last h \<noteq> [] then 0 else steady_count h + 1)"
proof -
  let ?r = "unchanged_run (last h) h"
  have pos: "0 < ?r"
    using unchanged_run_pos [OF assms] .
  show ?thesis
  proof (cases "last h = []")
    case True
    have a: "steady_count h = ?r - 1"
      using True by (simp add: steady_count_def)
    have b: "steady_count (h @ [last h]) = ?r"
      unfolding steady_count_same using True by simp
    have "?r = ?r - 1 + 1"
      using pos by simp
    then show ?thesis
      unfolding a b using True by simp
  next
    case False
    have a: "steady_count h = (?r - 1) mod 6"
      using False by (simp add: steady_count_def)
    have b: "steady_count (h @ [last h]) = ?r mod 6"
      unfolding steady_count_same using False by simp
    show ?thesis
      unfolding a b using False mod6_step [OF pos] by simp
  qed
qed

lemma agrees_step:
  assumes "agrees e m h t" and "observed k = Some cur" and "poll e m k = Inr m1"
  shows "agrees e m1 (h @ [cur]) (timer_step e (last h) t k cur)"
proof -
  have h: "h \<noteq> []" and lt: "last_text m = last h" and lp: "last_progress_time m = t"
    and sc: "stable_count m = steady_count h"
    using assms(1) by (simp_all add: agrees_def)
  note step = poll_continue [OF assms(2) assms(3), unfolded lt lp sc]
  note s1 = step [THEN conjunct1]
  note s2 = step [THEN conjunct2, THEN conjunct1]
  note s3 = step [THEN conjunct2, THEN conjunct2]
  have "poll e m k \<noteq> Inl True"
    using assms(3) by simp
  then have not_done: "\<not> (6 \<le> unchanged_run cur h \<and> at_least 95 cur e)"
    unfolding agrees_success [OF assms(1) assms(2)] by simp
  have held: "last_text m1 = last (h @ [cur])"
    using s1 by simp
  have count: "stable_count m1 = steady_count (h @ [cur])"
  proof (cases "cur = last h")
    case True
    have "stable_count m1 =
        (if 6 \<le> steady_count h + 1 \<and> last h \<noteq> [] then 0 else steady_count h + 1)"
      unfolding s2 True by simp
    also have "\<dots> = steady_count (h @ [last h])"
      by (rule steady_count_next [OF h, symmetric])
    finally show ?thesis
      unfolding True .
  next
    case False
    have "stable_count m1 = 0"
      unfolding s2 using False by simp
    then show ?thesis
      unfolding steady_count_changed [OF h False] .
  qed
  have bound: "at_least 95 (last (h @ [cur])) e \<longrightarrow>
      unchanged_run (last (h @ [cur])) (h @ [cur]) < Suc 6"
    using not_done by (auto simp: unchanged_run_snoc not_le)
  have nonempty: "h @ [cur] \<noteq> []"
    by simp
  from nonempty held count s3 bound show ?thesis
    unfolding agrees_def by - (intro conjI; assumption)
qed

lemma history_snoc:
  "history (ks @ [k]) = (case observed k of None \<Rightarrow> history ks | Some cur \<Rightarrow> history ks @ [cur])"
  by (simp add: history_def map_filter_def split: option.splits)

lemma history_nonempty: "history ks \<noteq> []"
  by (simp add: history_def)

lemma stall_timer_from_snoc:
  "stall_timer_from e p t (ks @ [k]) =
     (case observed k of
        None \<Rightarrow> stall_timer_from e p t ks
      | Some cur \<Rightarrow> timer_step e (last (p # List.map_filter observed ks)) (stall_timer_from e p t ks) k cur)"
proof (induction ks arbitrary: p t)
  case Nil
  then show ?case
    by (simp add: map_filter_def split: option.splits)
next
  case (Cons a ks)
  show ?case
  proof (cases "observed a")
    case None
    then show ?thesis
      using Cons.IH [of p t] by (simp add: map_filter_def split: option.splits)
  next
    case (Some c)
    then show ?thesis
      using Cons.IH [of c "timer_step e p t a c"]
      by (simp add: map_filter_def split: option.splits)
  qed
qed

lemma stall_timer_snoc:
  "stall_timer e t0 (ks @ [k]) =
     (case observed k of
        None \<Rightarrow> stall_timer e t0 ks
      | Some cur \<Rightarrow> timer_step e (last (history ks)) (stall_timer e t0 ks) k cur)"
  unfolding stall_timer_def history_def by (rule stall_timer_from_snoc)

lemma variables_snoc:
  "loop_variables e s w m (ks @ [k]) =
     (case loop_variables e s w m ks of
        None \<Rightarrow> None
      | Some m1 \<Rightarrow>
          (if clock_loop k - s < w
           then (case poll e m1 k of Inl r \<Rightarrow> None | Inr m2 \<Rightarrow> Some m2)
           else None))"
  by (induction ks arbitrary: m) (auto split: sum.splits option.splits)

lemma loop_snoc:
  "loop_variables e s w m ks = Some m1 \<Longrightarrow>
   monitor_loop e s w m (ks @ [k]) =
     (if clock_loop k - s < w
      then (case poll e m1 k of Inl r \<Rightarrow> Some r | Inr m2 \<Rightarrow> None)
      else Some False)"
  using loop_append [of e s w m ks m1 "[k]"] by (simp split: sum.splits)

lemma typing_agrees:
  "typing_variables e w t0 ks = Some m \<Longrightarrow> agrees e m (history ks) (stall_timer e t0 ks)"
proof (induction ks arbitrary: m rule: rev_induct)
  case Nil
  then show ?case
    using agrees_initial [of e t0]
    by (simp add: typing_variables_def history_def stall_timer_def map_filter_def)
next
  case (snoc k ks)
  from snoc.prems obtain m0 where m0: "typing_variables e w t0 ks = Some m0"
    and step: "poll e m0 k = Inr m"
    unfolding typing_variables_def variables_snoc
    by (auto split: option.splits if_splits sum.splits)
  note inv = snoc.IH [OF m0]
  show ?case
  proof (cases "observed k")
    case None
    have "m = m0"
      using step None by (simp add: poll_unreadable)
    then show ?thesis
      using inv None by (simp add: history_snoc stall_timer_snoc)
  next
    case (Some cur)
    show ?thesis
      using agrees_step [OF inv Some step] Some by (simp add: history_snoc stall_timer_snoc)
  qed
qed

lemma variables_defined:
  "wait_for_typing_completion e w t0 ks = None \<Longrightarrow> \<exists>m. typing_variables e w t0 ks = Some m"
  unfolding wait_for_typing_completion_def typing_variables_def loop_none_iff by simp

lemma variables_polling:
  "typing_variables e w t0 ks = Some m \<Longrightarrow> wait_for_typing_completion e w t0 ks = None"
  unfolding wait_for_typing_completion_def typing_variables_def loop_none_iff by simp

lemma wait_snoc:
  "typing_variables e w t0 ks = Some m \<Longrightarrow>
   wait_for_typing_completion e w t0 (ks @ [k]) =
     (if clock_loop k - t0 < w
      then (case poll e m k of Inl r \<Rightarrow> Some r | Inr m2 \<Rightarrow> None)
      else Some False)"
  unfolding wait_for_typing_completion_def typing_variables_def by (rule loop_snoc)

lemma typing_variables_snoc:
  "typing_variables e w t0 ks = Some m \<Longrightarrow>
   typing_variables e w t0 (ks @ [k]) =
     (if clock_loop k - t0 < w
      then (case poll e m k of Inl r \<Rightarrow> None | Inr m2 \<Rightarrow> Some m2)
      else None)"
  unfolding typing_variables_def variables_snoc by simp

lemma stream_success_iff:
  assumes "wait_for_typing_completion e w t0 ks = None"
  shows "wait_for_typing_completion e w t0 (ks @ [k]) = Some True \<longleftrightarrow>
     clock_loop k - t0 < w \<and>
     (\<exists>cur. observed k = Some cur \<and>
        ((6 \<le> unchanged_run cur (history ks) \<and> at_least 95 cur e) \<or>
         (60 < clock_stall k -
                 (if cur = last (history ks) \<or> cur = [] then stall_timer e t0 ks
                  else clock_progress k) \<and>
          at_least 80 cur e)))"
proof -
  obtain m where m: "typing_variables e w t0 ks = Some m"
    using variables_defined [OF assms] by blast
  note inv = typing_agrees [OF m]
  have "wait_for_typing_completion e w t0 (ks @ [k]) = Some True \<longleftrightarrow>
      clock_loop k - t0 < w \<and> poll e m k = Inl True"
    unfolding wait_snoc [OF m] by (simp split: sum.splits)
  also have "poll e m k = Inl True \<longleftrightarrow>
     (\<exists>cur. observed k = Some cur \<and>
        ((6 \<le> unchanged_run cur (history ks) \<and> at_least 95 cur e) \<or>
         (60 < clock_stall k -
                 (if cur = last (history ks) \<or> cur = [] then stall_timer e t0 ks
                  else clock_progress k) \<and>
          at_least 80 cur e)))"
  proof (cases "observed k")
    case None
    then show ?thesis
      by (simp add: poll_unreadable)
  next
    case (Some cur)
    show ?thesis
      unfolding agrees_success [OF inv Some] Some by simp
  qed
  finally show ?thesis .
qed

lemma stream_failure_iff:
  assumes "wait_for_typing_completion e w t0 ks = None"
  shows "wait_for_typing_completion e w t0 (ks @ [k]) = Some False \<longleftrightarrow> w \<le> clock_loop k - t0"
proof -
  obtain m where m: "typing_variables e w t0 ks = Some m"
    using variables_defined [OF assms] by blast
  show ?thesis
    unfolding wait_snoc [OF m] using poll_never_gives_up [of e m k]
    by (auto split: sum.splits)
qed

lemma stream_variables:
  assumes "wait_for_typing_completion e w t0 ks = None"
  shows "\<exists>m. typing_variables e w t0 ks = Some m \<and>
           last_text m = last (history ks) \<and>
           stable_count m = steady_count (history ks) \<and>
           last_progress_time m = stall_timer e t0 ks"
proof -
  obtain m where m: "typing_variables e w t0 ks = Some m"
    using variables_defined [OF assms] by blast
  show ?thesis
    using typing_agrees [OF m] m by (simp add: agrees_def)
qed

lemma stream_run_bound:
  assumes "wait_for_typing_completion e w t0 ks = None"
    and "at_least 95 (last (history ks)) e"
  shows "unchanged_run (last (history ks)) (history ks) \<le> 6"
proof -
  obtain m where m: "typing_variables e w t0 ks = Some m"
    using variables_defined [OF assms(1)] by blast
  show ?thesis
    using typing_agrees [OF m] assms(2) by (simp add: agrees_def)
qed

lemma unchanged_run_is_last:
  "0 < unchanged_run cur h \<Longrightarrow> h \<noteq> [] \<and> last h = cur"
  by (cases h rule: rev_cases) (auto simp: unchanged_run_def split: if_splits)

lemma stream_counter_reset:
  assumes "wait_for_typing_completion e w t0 ks = None"
    and "observed k = Some cur" and "clock_loop k - t0 < w"
    and "unchanged_run cur (history ks) = 6" and "\<not> at_least 95 cur e"
  shows "wait_for_typing_completion e w t0 (ks @ [k]) =
           (if 60 < clock_stall k - stall_timer e t0 ks \<and> at_least 80 cur e
            then Some True else None) \<and>
         (wait_for_typing_completion e w t0 (ks @ [k]) = None \<longrightarrow>
            (\<exists>m. typing_variables e w t0 (ks @ [k]) = Some m \<and>
                 stable_count m = (if cur = [] then 6 else 0)))"
proof -
  have same: "last (history ks) = cur"
    using unchanged_run_is_last [of cur "history ks"] assms(4) by simp
  have success: "wait_for_typing_completion e w t0 (ks @ [k]) = Some True \<longleftrightarrow>
      60 < clock_stall k - stall_timer e t0 ks \<and> at_least 80 cur e"
    unfolding stream_success_iff [OF assms(1)] using assms(2,3,5) same by simp
  have failure: "wait_for_typing_completion e w t0 (ks @ [k]) \<noteq> Some False"
    unfolding stream_failure_iff [OF assms(1)] using assms(3) by simp
  have first: "wait_for_typing_completion e w t0 (ks @ [k]) =
           (if 60 < clock_stall k - stall_timer e t0 ks \<and> at_least 80 cur e
            then Some True else None)"
  proof (cases "wait_for_typing_completion e w t0 (ks @ [k])")
    case None
    then show ?thesis
      using success by auto
  next
    case (Some r)
    then show ?thesis
      using success failure by (cases r) auto
  qed
  have second: "wait_for_typing_completion e w t0 (ks @ [k]) = None \<longrightarrow>
            (\<exists>m. typing_variables e w t0 (ks @ [k]) = Some m \<and>
                 stable_count m = (if cur = [] then 6 else 0))"
  proof
    assume going: "wait_for_typing_completion e w t0 (ks @ [k]) = None"
    obtain m where m: "typing_variables e w t0 (ks @ [k]) = Some m"
      and count: "stable_count m = steady_count (history (ks @ [k]))"
      using stream_variables [OF going] by blast
    have "history (ks @ [k]) = history ks @ [last (history ks)]"
      using assms(2) same by (simp add: history_snoc)
    then have "steady_count (history (ks @ [k])) =
        (if cur = [] then 6 else 0)"
      using steady_count_same [of "history ks", unfolded same assms(4)] same by simp
    then show "\<exists>m. typing_variables e w t0 (ks @ [k]) = Some m \<and>
                 stable_count m = (if cur = [] then 6 else 0)"
      using m count by simp
  qed
  from first second show ?thesis
    by (rule conjI)
qed

lemma in_time_no_failure:
  "list_all (in_time s w) ks \<Longrightarrow> monitor_loop e s w m ks \<noteq> Some False"
proof (induction ks arbitrary: m)
  case Nil
  then show ?case by simp
next
  case (Cons k ks)
  then show ?case
    using poll_never_gives_up [of e m k]
    by (cases "poll e m k") (auto simp: in_time_def)
qed

lemma loop_prefix_result:
  "monitor_loop e s w m ks = Some r \<Longrightarrow> monitor_loop e s w m (ks @ rest) = Some r"
  by (induction ks arbitrary: m) (auto split: sum.splits if_splits)

lemma stream_stable_success:
  assumes "list_all (in_time t0 w) pre" and "steady c t0 w f"
    and "list_all (steady c t0 w) six" and "6 \<le> length six" and "at_least 95 c e"
  shows "wait_for_typing_completion e w t0 (pre @ f # six @ rest) = Some True"
proof (cases "wait_for_typing_completion e w t0 pre")
  case (Some r)
  have "r"
    using in_time_no_failure [OF assms(1), of e] Some
    unfolding wait_for_typing_completion_def by (cases r) auto
  then show ?thesis
    using Some loop_prefix_result [of e t0 w _ pre r "f # six @ rest"]
    unfolding wait_for_typing_completion_def by simp
next
  case None
  obtain m where m: "typing_variables e w t0 pre = Some m"
    using variables_defined [OF None] by blast
  have obs: "observed f = Some c" and time: "clock_loop f - t0 < w"
    using assms(2) by (simp_all add: steady_def)
  have split: "wait_for_typing_completion e w t0 (pre @ f # six @ rest) =
      monitor_loop e t0 w m (f # six @ rest)"
    using m loop_append [of e t0 w _ pre m "f # six @ rest"]
    unfolding wait_for_typing_completion_def typing_variables_def by simp
  show ?thesis
  proof (cases "poll e m f")
    case (Inl r)
    then have "r"
      using poll_never_gives_up [of e m f] by (cases r) auto
    then show ?thesis
      unfolding split using Inl time by simp
  next
    case (Inr m1)
    have held: "last_text m1 = c"
      using poll_continue [OF obs Inr] by simp
    have "six \<noteq> []"
      using assms(4) by auto
    moreover have "6 \<le> stable_count m1 + length six"
      using assms(4) by simp
    moreover have "list_all (steady (last_text m1) t0 w) six"
      using assms(3) held by simp
    moreover have "at_least 95 (last_text m1) e"
      using assms(5) held by simp
    ultimately have "monitor_loop e t0 w m1 (six @ rest) = Some True"
      by (rule six_stable_samples)
    then show ?thesis
      unfolding split using Inr time by simp
  qed
qed

lemma calm_quiet: "calm (last_text m) (last_progress_time m) s w = quiet m s w"
  by (rule ext) (simp add: calm_def quiet_def)

lemma poll_new_text:
  assumes "observed f = Some c" and "c \<noteq> last_text m" and "c \<noteq> []"
    and "clock_stall f - clock_progress f \<le> 60"
  shows "poll e m f =
     Inr (m\<lparr>stable_count := 0, last_text := c, last_progress_time := clock_progress f\<rparr>)"
  using assms by (simp add: poll_observed check_stable_def check_stalled_def Let_def)

lemma stream_frozen:
  assumes "wait_for_typing_completion e w t0 ks = None"
    and "steady c t0 w f" and "c \<noteq> last (history ks)" and "c \<noteq> []"
    and "clock_stall f - clock_progress f \<le> 60"
    and "list_all (calm c (clock_progress f) t0 w) pre"
    and "steady c t0 w q" and "60 < clock_stall q - clock_progress f"
    and "\<not> at_least 95 c e"
  shows "wait_for_typing_completion e w t0 (ks @ f # pre @ [q]) =
           (if at_least 80 c e then Some True else None)"
proof -
  obtain m where m: "typing_variables e w t0 ks = Some m"
    and held: "last_text m = last (history ks)"
    using stream_variables [OF assms(1)] by blast
  have obs: "observed f = Some c" and time: "clock_loop f - t0 < w"
    using assms(2) by (simp_all add: steady_def)
  let ?m1 = "m\<lparr>stable_count := 0, last_text := c, last_progress_time := clock_progress f\<rparr>"
  have step: "poll e m f = Inr ?m1"
    using poll_new_text [OF obs _ assms(4) assms(5), of m e] assms(3) held by simp
  have "wait_for_typing_completion e w t0 (ks @ f # pre @ [q]) =
      monitor_loop e t0 w m (f # pre @ [q])"
    using m loop_append [of e t0 w _ ks m "f # pre @ [q]"]
    unfolding wait_for_typing_completion_def typing_variables_def by simp
  also have "\<dots> = monitor_loop e t0 w ?m1 (pre @ q # [])"
    using step time by simp
  finally have split: "wait_for_typing_completion e w t0 (ks @ f # pre @ [q]) =
      monitor_loop e t0 w ?m1 (pre @ q # [])" .
  have a: "list_all (quiet ?m1 t0 w) pre"
    using assms(6) calm_quiet [of ?m1 t0 w] by simp
  have b: "steady (last_text ?m1) t0 w q"
    using assms(7) by simp
  have c: "60 < clock_stall q - last_progress_time ?m1"
    using assms(8) by simp
  have d: "\<not> at_least 95 (last_text ?m1) e"
    using assms(9) by simp
  obtain n where "monitor_loop e t0 w ?m1 (pre @ q # []) =
           (if at_least 80 (last_text ?m1) e then Some True
            else monitor_loop e t0 w
                   \<lparr>last_text = last_text ?m1, stable_count = n,
                      last_progress_time = clock_reset q\<rparr> [])"
    using frozen_stall [OF a b c d, of "[]"] by blast
  then show ?thesis
    unfolding split by simp
qed

lemma stream_stall_decision:
  assumes "wait_for_typing_completion e w t0 ks = None"
    and "observed k = Some cur" and "clock_loop k - t0 < w"
    and "\<not> (6 \<le> unchanged_run cur (history ks) \<and> at_least 95 cur e)"
  shows "wait_for_typing_completion e w t0 (ks @ [k]) =
           (if 60 < clock_stall k -
                      (if cur = last (history ks) \<or> cur = [] then stall_timer e t0 ks
                       else clock_progress k) \<and>
               at_least 80 cur e
            then Some True else None)"
proof -
  have success: "wait_for_typing_completion e w t0 (ks @ [k]) = Some True \<longleftrightarrow>
      60 < clock_stall k -
             (if cur = last (history ks) \<or> cur = [] then stall_timer e t0 ks
              else clock_progress k) \<and>
      at_least 80 cur e"
    unfolding stream_success_iff [OF assms(1)] using assms(2,3,4) by auto
  have failure: "wait_for_typing_completion e w t0 (ks @ [k]) \<noteq> Some False"
    unfolding stream_failure_iff [OF assms(1)] using assms(3) by simp
  show ?thesis
  proof (cases "wait_for_typing_completion e w t0 (ks @ [k])")
    case None
    then show ?thesis
      using success by auto
  next
    case (Some r)
    then show ?thesis
      using success failure by (cases r) auto
  qed
qed

lemma stream_stalled:
  assumes "wait_for_typing_completion e w t0 ks = None"
    and "observed k = Some cur" and "clock_loop k - t0 < w"
    and "60 < clock_stall k -
                (if cur = last (history ks) \<or> cur = [] then stall_timer e t0 ks
                 else clock_progress k)"
  shows "wait_for_typing_completion e w t0 (ks @ [k]) =
           (if at_least 80 cur e then Some True else None)"
proof -
  have success: "wait_for_typing_completion e w t0 (ks @ [k]) = Some True \<longleftrightarrow>
      at_least 80 cur e"
    unfolding stream_success_iff [OF assms(1)]
    using assms(2,3,4) at_least_95_80 [of cur e] by auto
  have failure: "wait_for_typing_completion e w t0 (ks @ [k]) \<noteq> Some False"
    unfolding stream_failure_iff [OF assms(1)] using assms(3) by simp
  show ?thesis
  proof (cases "wait_for_typing_completion e w t0 (ks @ [k])")
    case None
    then show ?thesis
      using success by auto
  next
    case (Some r)
    then show ?thesis
      using success failure by (cases r) auto
  qed
qed

lemma stream_timer_step:
  "observed k = Some cur \<Longrightarrow>
   stall_timer e t0 (ks @ [k]) =
     (if 60 < clock_stall k -
                (if cur = last (history ks) \<or> cur = [] then stall_timer e t0 ks
                 else clock_progress k) \<and>
         \<not> at_least 80 cur e
      then clock_reset k
      else (if cur = last (history ks) \<or> cur = [] then stall_timer e t0 ks
            else clock_progress k))"
  by (simp add: stall_timer_snoc timer_step_def Let_def)

lemma below_never_accepted:
  "list_all (below 80 e) ks \<Longrightarrow> monitor_loop e s w m ks \<noteq> Some True"
proof (induction ks arbitrary: m)
  case Nil
  then show ?case by simp
next
  case (Cons k ks)
  have "poll e m k \<noteq> Inl True"
  proof (cases "observed k")
    case None
    then show ?thesis
      by (simp add: poll_unreadable)
  next
    case (Some cur)
    have "\<not> at_least 80 cur e"
      using Cons.prems Some by (simp add: below_def)
    then show ?thesis
      unfolding poll_success_iff [OF Some] using at_least_95_80 [of cur e] by auto
  qed
  then show ?case
    using Cons by (cases "poll e m k") auto
qed

lemma below_keeps_polling:
  assumes "list_all (below 80 e) ks" and "list_all (in_time t0 w) ks"
  shows "wait_for_typing_completion e w t0 ks = None"
proof (cases "wait_for_typing_completion e w t0 ks")
  case None
  then show ?thesis .
next
  case (Some r)
  then show ?thesis
    using below_never_accepted [OF assms(1), of t0 w] in_time_no_failure [OF assms(2), of e]
    unfolding wait_for_typing_completion_def by (cases r) auto
qed

lemmas stream_eval = wait_for_typing_completion_def typing_variables_def sample_def poll_def
  check_stable_def check_stalled_def at_least_def text_of_def strip_def isspace_def
  observed_def history_def map_filter_def unchanged_run_def steady_count_def
  stall_timer_def timer_step_def steady_def in_time_def calm_def below_def

section \<open>Claims about the typing-completion detector\<close>

text \<open>
  C1 (as amended).  Take any prompt, any stream of samples after which the detector is
  still polling, and the next sample.  The loop's \<open>last_text\<close> is the latest text
  observed and its stability counter is the count read off the stream.  The detector
  declares success at the next sample exactly when that sample is taken before the
  ceiling, its read succeeds, and either its stripped text equals each of the 6
  observations before it (the empty text the detector starts from counting as the first
  observation) and has at least 95% of the prompt's length, or more than 60 seconds have
  passed on the stall timer and the text has at least 80% of the length.  It returns
  failure there exactly when the sample is taken at or past the ceiling.  A text of at
  least 95% never repeats more than 6 times while the detector polls.  When the text has
  repeated 6 times and is under the 95% threshold, polling continues unless the stall rule
  accepts at that sample, and the counter is then 0 if the text is non-empty and 6 if it is
  empty.  Any stream of in-time samples that shows a text of at least 95% and then repeats
  it 6 times ends in success.
\<close>

theorem stability_rule:
  "(wait_for_typing_completion e w t0 ks = None \<longrightarrow>
      (\<exists>m. typing_variables e w t0 ks = Some m \<and>
           last_text m = last (history ks) \<and>
           stable_count m = steady_count (history ks)) \<and>
      (wait_for_typing_completion e w t0 (ks @ [k]) = Some True \<longleftrightarrow>
         clock_loop k - t0 < w \<and>
         (\<exists>cur. observed k = Some cur \<and>
            ((6 \<le> unchanged_run cur (history ks) \<and> at_least 95 cur e) \<or>
             (60 < clock_stall k -
                     (if cur = last (history ks) \<or> cur = [] then stall_timer e t0 ks
                      else clock_progress k) \<and>
              at_least 80 cur e)))) \<and>
      (wait_for_typing_completion e w t0 (ks @ [k]) = Some False \<longleftrightarrow>
         w \<le> clock_loop k - t0) \<and>
      (at_least 95 (last (history ks)) e \<longrightarrow>
         unchanged_run (last (history ks)) (history ks) \<le> 6) \<and>
      (observed k = Some c \<and> clock_loop k - t0 < w \<and>
       unchanged_run c (history ks) = 6 \<and> \<not> at_least 95 c e \<longrightarrow>
         wait_for_typing_completion e w t0 (ks @ [k]) =
           (if 60 < clock_stall k - stall_timer e t0 ks \<and> at_least 80 c e
            then Some True else None) \<and>
         (wait_for_typing_completion e w t0 (ks @ [k]) = None \<longrightarrow>
            (\<exists>m. typing_variables e w t0 (ks @ [k]) = Some m \<and>
                 stable_count m = (if c = [] then 6 else 0))))) \<and>
   (list_all (in_time t0 w) pre \<and> steady full t0 w f \<and>
    list_all (steady full t0 w) six \<and> 6 \<le> length six \<and> at_least 95 full e \<longrightarrow>
      wait_for_typing_completion e w t0 (pre @ f # six @ rest) = Some True)"
proof -
  have a: "wait_for_typing_completion e w t0 ks = None \<longrightarrow>
      (\<exists>m. typing_variables e w t0 ks = Some m \<and>
           last_text m = last (history ks) \<and>
           stable_count m = steady_count (history ks))"
    using stream_variables [of e w t0 ks] by blast
  have b: "wait_for_typing_completion e w t0 ks = None \<longrightarrow>
      (wait_for_typing_completion e w t0 (ks @ [k]) = Some True \<longleftrightarrow>
         clock_loop k - t0 < w \<and>
         (\<exists>cur. observed k = Some cur \<and>
            ((6 \<le> unchanged_run cur (history ks) \<and> at_least 95 cur e) \<or>
             (60 < clock_stall k -
                     (if cur = last (history ks) \<or> cur = [] then stall_timer e t0 ks
                      else clock_progress k) \<and>
              at_least 80 cur e))))"
    using stream_success_iff [of e w t0 ks k] by (rule impI)
  have c: "wait_for_typing_completion e w t0 ks = None \<longrightarrow>
      (wait_for_typing_completion e w t0 (ks @ [k]) = Some False \<longleftrightarrow>
         w \<le> clock_loop k - t0)"
    using stream_failure_iff [of e w t0 ks k] by (rule impI)
  have d: "wait_for_typing_completion e w t0 ks = None \<longrightarrow>
      (at_least 95 (last (history ks)) e \<longrightarrow>
         unchanged_run (last (history ks)) (history ks) \<le> 6)"
    using stream_run_bound [of e w t0 ks] by blast
  have r: "wait_for_typing_completion e w t0 ks = None \<longrightarrow>
      (observed k = Some c \<and> clock_loop k - t0 < w \<and>
       unchanged_run c (history ks) = 6 \<and> \<not> at_least 95 c e \<longrightarrow>
         wait_for_typing_completion e w t0 (ks @ [k]) =
           (if 60 < clock_stall k - stall_timer e t0 ks \<and> at_least 80 c e
            then Some True else None) \<and>
         (wait_for_typing_completion e w t0 (ks @ [k]) = None \<longrightarrow>
            (\<exists>m. typing_variables e w t0 (ks @ [k]) = Some m \<and>
                 stable_count m = (if c = [] then 6 else 0))))"
    using stream_counter_reset [of e w t0 ks k c] by blast
  have s: "list_all (in_time t0 w) pre \<and> steady full t0 w f \<and>
    list_all (steady full t0 w) six \<and> 6 \<le> length six \<and> at_least 95 full e \<longrightarrow>
      wait_for_typing_completion e w t0 (pre @ f # six @ rest) = Some True"
    using stream_stable_success [of t0 w pre full f six e rest] by blast
  from a b c d r have "wait_for_typing_completion e w t0 ks = None \<longrightarrow>
      (\<exists>m. typing_variables e w t0 ks = Some m \<and>
           last_text m = last (history ks) \<and>
           stable_count m = steady_count (history ks)) \<and>
      (wait_for_typing_completion e w t0 (ks @ [k]) = Some True \<longleftrightarrow>
         clock_loop k - t0 < w \<and>
         (\<exists>cur. observed k = Some cur \<and>
            ((6 \<le> unchanged_run cur (history ks) \<and> at_least 95 cur e) \<or>
             (60 < clock_stall k -
                     (if cur = last (history ks) \<or> cur = [] then stall_timer e t0 ks
                      else clock_progress k) \<and>
              at_least 80 cur e)))) \<and>
      (wait_for_typing_completion e w t0 (ks @ [k]) = Some False \<longleftrightarrow>
         w \<le> clock_loop k - t0) \<and>
      (at_least 95 (last (history ks)) e \<longrightarrow>
         unchanged_run (last (history ks)) (history ks) \<le> 6) \<and>
      (observed k = Some c \<and> clock_loop k - t0 < w \<and>
       unchanged_run c (history ks) = 6 \<and> \<not> at_least 95 c e \<longrightarrow>
         wait_for_typing_completion e w t0 (ks @ [k]) =
           (if 60 < clock_stall k - stall_timer e t0 ks \<and> at_least 80 c e
            then Some True else None) \<and>
         (wait_for_typing_completion e w t0 (ks @ [k]) = None \<longrightarrow>
            (\<exists>m. typing_variables e w t0 (ks @ [k]) = Some m \<and>
                 stable_count m = (if c = [] then 6 else 0))))"
    by - (rule impI, intro conjI; (erule (1) mp | assumption))
  from this s show ?thesis
    by (rule conjI)
qed

theorem stability_rule_witness:
  "wait_for_typing_completion ''abcde'' 300 0
     [sample 0 ''abcde'', sample 1 ''abcde'', sample 2 ''abcde'', sample 3 ''abcde'',
      sample 4 ''abcde'', sample 5 ''abcde''] = None \<and>
   clock_loop (sample 6 '' abcde '') - 0 < 300 \<and>
   observed (sample 6 '' abcde '') = Some ''abcde'' \<and>
   unchanged_run ''abcde''
     (history [sample 0 ''abcde'', sample 1 ''abcde'', sample 2 ''abcde'', sample 3 ''abcde'',
        sample 4 ''abcde'', sample 5 ''abcde'']) = 6 \<and>
   at_least 95 ''abcde'' ''abcde'' \<and>
   wait_for_typing_completion ''abcde'' 300 0
     ([sample 0 ''abcde'', sample 1 ''abcde'', sample 2 ''abcde'', sample 3 ''abcde'',
       sample 4 ''abcde'', sample 5 ''abcde''] @ [sample 6 '' abcde '']) = Some True \<and>
   wait_for_typing_completion ''abcde'' 300 0
     [sample 0 ''abcd'', sample 1 ''abcd'', sample 2 ''abcd'', sample 3 ''abcd'',
      sample 4 ''abcd'', sample 5 ''abcd''] = None \<and>
   unchanged_run ''abcd''
     (history [sample 0 ''abcd'', sample 1 ''abcd'', sample 2 ''abcd'', sample 3 ''abcd'',
        sample 4 ''abcd'', sample 5 ''abcd'']) = 6 \<and>
   \<not> at_least 95 ''abcd'' ''abcde'' \<and>
   wait_for_typing_completion ''abcde'' 300 0
     ([sample 0 ''abcd'', sample 1 ''abcd'', sample 2 ''abcd'', sample 3 ''abcd'',
       sample 4 ''abcd'', sample 5 ''abcd''] @ [sample 6 ''abcd'']) = None \<and>
   (\<exists>m. typing_variables ''abcde'' 300 0
          ([sample 0 ''abcd'', sample 1 ''abcd'', sample 2 ''abcd'', sample 3 ''abcd'',
            sample 4 ''abcd'', sample 5 ''abcd''] @ [sample 6 ''abcd'']) = Some m \<and>
        stable_count m = 0) \<and>
   list_all (in_time 0 300) [sample 0 ''ab''] \<and>
   steady ''abcde'' 0 300 (sample 1 ''abcde'') \<and>
   list_all (steady ''abcde'' 0 300)
     [sample 2 ''abcde'', sample 3 ''abcde'', sample 4 ''abcde'', sample 5 ''abcde'',
      sample 6 ''abcde'', sample 7 ''abcde''] \<and>
   wait_for_typing_completion ''abcde'' 300 0
     ([sample 0 ''ab''] @ sample 1 ''abcde'' #
      [sample 2 ''abcde'', sample 3 ''abcde'', sample 4 ''abcde'', sample 5 ''abcde'',
       sample 6 ''abcde'', sample 7 ''abcde''] @ []) = Some True"
proof -
  let ?full = "[sample 0 ''abcde'', sample 1 ''abcde'', sample 2 ''abcde'', sample 3 ''abcde'',
      sample 4 ''abcde'', sample 5 ''abcde'']"
  let ?short = "[sample 0 ''abcd'', sample 1 ''abcd'', sample 2 ''abcd'', sample 3 ''abcd'',
      sample 4 ''abcd'', sample 5 ''abcd'']"
  let ?six = "[sample 2 ''abcde'', sample 3 ''abcde'', sample 4 ''abcde'', sample 5 ''abcde'',
      sample 6 ''abcde'', sample 7 ''abcde'']"
  have polling: "wait_for_typing_completion ''abcde'' 300 0 ?full = None"
    by (simp add: stream_eval)
  have time: "clock_loop (sample 6 '' abcde '') - 0 < 300"
    by (simp add: sample_def)
  have seen: "observed (sample 6 '' abcde '') = Some ''abcde''"
    by (simp add: stream_eval)
  have run: "unchanged_run ''abcde'' (history ?full) = 6"
    by (simp add: stream_eval)
  have enough: "at_least 95 ''abcde'' ''abcde''"
    by (simp add: at_least_def)
  note at_full = stability_rule [where e = "''abcde''" and w = 300 and ?t0.0 = 0 and ks = ?full
      and k = "sample 6 '' abcde ''", THEN conjunct1, THEN mp, OF polling]
  have accepted: "wait_for_typing_completion ''abcde'' 300 0 (?full @ [sample 6 '' abcde ''])
      = Some True"
    unfolding at_full [THEN conjunct2, THEN conjunct1] using time seen run enough by simp
  have polling': "wait_for_typing_completion ''abcde'' 300 0 ?short = None"
    by (simp add: stream_eval)
  have time': "clock_loop (sample 6 ''abcd'') - 0 < 300"
    by (simp add: sample_def)
  have seen': "observed (sample 6 ''abcd'') = Some ''abcd''"
    by (simp add: stream_eval)
  have run': "unchanged_run ''abcd'' (history ?short) = 6"
    by (simp add: stream_eval)
  have short: "\<not> at_least 95 ''abcd'' ''abcde''"
    by (simp add: at_least_def)
  have early: "\<not> (60 < clock_stall (sample 6 ''abcd'') - stall_timer ''abcde'' 0 ?short \<and>
      at_least 80 ''abcd'' ''abcde'')"
    by (simp add: stream_eval)
  note at_short = stability_rule [where e = "''abcde''" and w = 300 and ?t0.0 = 0
      and ks = ?short and k = "sample 6 ''abcd''" and c = "''abcd''",
      THEN conjunct1, THEN mp, OF polling',
      THEN conjunct2, THEN conjunct2, THEN conjunct2, THEN conjunct2, THEN mp,
      OF conjI [OF seen' conjI [OF time' conjI [OF run' short]]]]
  have going: "wait_for_typing_completion ''abcde'' 300 0 (?short @ [sample 6 ''abcd'']) = None"
    using at_short [THEN conjunct1] early by (simp only: if_False)
  have reset: "\<exists>m. typing_variables ''abcde'' 300 0 (?short @ [sample 6 ''abcd'']) = Some m \<and>
      stable_count m = 0"
    using at_short [THEN conjunct2, THEN mp, OF going] by simp
  have before: "list_all (in_time 0 300) [sample 0 ''ab'']"
    by (simp add: stream_eval)
  have first: "steady ''abcde'' 0 300 (sample 1 ''abcde'')"
    by (simp add: stream_eval)
  have rest: "list_all (steady ''abcde'' 0 300) ?six"
    by (simp add: stream_eval)
  have six: "6 \<le> length ?six"
    by simp
  have stable: "wait_for_typing_completion ''abcde'' 300 0
      ([sample 0 ''ab''] @ sample 1 ''abcde'' # ?six @ []) = Some True"
    by (rule stability_rule [where e = "''abcde''" and w = 300 and ?t0.0 = 0
        and pre = "[sample 0 ''ab'']" and f = "sample 1 ''abcde''" and six = ?six
        and full = "''abcde''" and rest = "[]", THEN conjunct2, THEN mp,
        OF conjI [OF before conjI [OF first conjI [OF rest conjI [OF six enough]]]]])
  from polling time seen run enough accepted polling' run' short going reset before first
    rest stable
  show ?thesis
    by - (intro conjI; assumption)
qed

theorem stability_rule_counterexample:
  "wait_for_typing_completion ''abcdefghij'' 300 0
     [sample 0 ''abcdefghi'', sample 10 ''abcdefghi'', sample 20 ''abcdefghi'',
      sample 30 ''abcdefghi'', sample 40 ''abcdefghi'', sample 50 ''abcdefghi''] = None \<and>
   unchanged_run ''abcdefghi''
     (history [sample 0 ''abcdefghi'', sample 10 ''abcdefghi'', sample 20 ''abcdefghi'',
        sample 30 ''abcdefghi'', sample 40 ''abcdefghi'', sample 50 ''abcdefghi'']) = 6 \<and>
   wait_for_typing_completion ''abcdefghij'' 300 0
     [sample 0 ''abcdefghi'', sample 10 ''abcdefghi'', sample 20 ''abcdefghi'',
      sample 30 ''abcdefghi'', sample 40 ''abcdefghi'', sample 50 ''abcdefghi'',
      sample 61 ''abcdefghi''] = Some True \<and>
   wait_for_typing_completion ''abcdefghij'' 300 0 [sample 0 ''abcdefghi''] = None \<and>
   unchanged_run ''abcdefghi'' (history [sample 0 ''abcdefghi'']) = 1 \<and>
   \<not> at_least 95 ''abcdefghi'' ''abcdefghij'' \<and>
   wait_for_typing_completion ''abcdefghij'' 300 0
     [sample 0 ''abcdefghi'', sample 61 ''abcdefghi''] = Some True \<and>
   unchanged_run []
     (history [sample 1 [], sample 2 [], sample 3 [], sample 4 [], sample 5 []]) = 6 \<and>
   \<not> at_least 95 [] ''ab'' \<and>
   typing_variables ''ab'' 300 0
     [sample 1 [], sample 2 [], sample 3 [], sample 4 [], sample 5 [], sample 6 []]
     = Some \<lparr>last_text = [], stable_count = 6, last_progress_time = 0\<rparr>"
  by (simp add: stream_eval)

text \<open>
  C2 (as amended).  Take any prompt, any stream of samples after which the detector is
  still polling, and the next sample.  The loop's \<open>last_progress_time\<close> is the stall timer
  read off the stream: the detector's start, moved by every sample whose stripped text
  differs from the observation before it and is non-empty, whatever its length, and by
  every rejected stall.  At an in-time readable sample at which more than 60 seconds have
  passed on that timer, the detector accepts the text if it has at least 80% of the
  prompt's length and otherwise goes on polling; at one that the stability rule does not
  settle, it accepts exactly when the 60 seconds have passed and the text has at least
  80%.  A
  stream that comes to show a new non-empty text under 95% and then repeats it, is settled
  at the first sample more than 60 seconds after the text appeared: accepted at 80% or
  more, and still polling otherwise.  A stream of in-time samples that are all under 80% is
  never settled.  Exactly 80% is accepted and 79% is not.
\<close>

theorem stall_rule:
  "(wait_for_typing_completion e w t0 ks = None \<longrightarrow>
      (\<exists>m. typing_variables e w t0 ks = Some m \<and>
           last_progress_time m = stall_timer e t0 ks) \<and>
      (observed k = Some cur \<and> clock_loop k - t0 < w \<and>
       60 < clock_stall k -
              (if cur = last (history ks) \<or> cur = [] then stall_timer e t0 ks
               else clock_progress k) \<longrightarrow>
         wait_for_typing_completion e w t0 (ks @ [k]) =
           (if at_least 80 cur e then Some True else None)) \<and>
      (observed k = Some cur \<and> clock_loop k - t0 < w \<and>
       \<not> (6 \<le> unchanged_run cur (history ks) \<and> at_least 95 cur e) \<longrightarrow>
         wait_for_typing_completion e w t0 (ks @ [k]) =
           (if 60 < clock_stall k -
                      (if cur = last (history ks) \<or> cur = [] then stall_timer e t0 ks
                       else clock_progress k) \<and>
               at_least 80 cur e
            then Some True else None)) \<and>
      (steady c t0 w f \<and> c \<noteq> last (history ks) \<and> c \<noteq> [] \<and>
       clock_stall f - clock_progress f \<le> 60 \<and>
       list_all (calm c (clock_progress f) t0 w) pre \<and>
       steady c t0 w q \<and> 60 < clock_stall q - clock_progress f \<and> \<not> at_least 95 c e \<longrightarrow>
         wait_for_typing_completion e w t0 (ks @ f # pre @ [q]) =
           (if at_least 80 c e then Some True else None))) \<and>
   (observed k = Some cur \<longrightarrow>
      stall_timer e t0 (ks @ [k]) =
        (if 60 < clock_stall k -
                   (if cur = last (history ks) \<or> cur = [] then stall_timer e t0 ks
                    else clock_progress k) \<and>
            \<not> at_least 80 cur e
         then clock_reset k
         else (if cur = last (history ks) \<or> cur = [] then stall_timer e t0 ks
               else clock_progress k))) \<and>
   (list_all (below 80 e) ks \<and> list_all (in_time t0 w) ks \<longrightarrow>
      wait_for_typing_completion e w t0 ks = None) \<and>
   (5 * length cur = 4 * length e \<longrightarrow> at_least 80 cur e) \<and>
   (100 * length cur = 79 * length e \<and> e \<noteq> [] \<longrightarrow> \<not> at_least 80 cur e)"
proof -
  have a: "wait_for_typing_completion e w t0 ks = None \<longrightarrow>
      (\<exists>m. typing_variables e w t0 ks = Some m \<and>
           last_progress_time m = stall_timer e t0 ks)"
    using stream_variables [of e w t0 ks] by blast
  have stalled: "wait_for_typing_completion e w t0 ks = None \<longrightarrow>
      (observed k = Some cur \<and> clock_loop k - t0 < w \<and>
       60 < clock_stall k -
              (if cur = last (history ks) \<or> cur = [] then stall_timer e t0 ks
               else clock_progress k) \<longrightarrow>
         wait_for_typing_completion e w t0 (ks @ [k]) =
           (if at_least 80 cur e then Some True else None))"
    using stream_stalled [of e w t0 ks k cur] by blast
  have b: "wait_for_typing_completion e w t0 ks = None \<longrightarrow>
      (observed k = Some cur \<and> clock_loop k - t0 < w \<and>
       \<not> (6 \<le> unchanged_run cur (history ks) \<and> at_least 95 cur e) \<longrightarrow>
         wait_for_typing_completion e w t0 (ks @ [k]) =
           (if 60 < clock_stall k -
                      (if cur = last (history ks) \<or> cur = [] then stall_timer e t0 ks
                       else clock_progress k) \<and>
               at_least 80 cur e
            then Some True else None))"
    using stream_stall_decision [of e w t0 ks k cur] by blast
  have c: "wait_for_typing_completion e w t0 ks = None \<longrightarrow>
      (steady c t0 w f \<and> c \<noteq> last (history ks) \<and> c \<noteq> [] \<and>
       clock_stall f - clock_progress f \<le> 60 \<and>
       list_all (calm c (clock_progress f) t0 w) pre \<and>
       steady c t0 w q \<and> 60 < clock_stall q - clock_progress f \<and> \<not> at_least 95 c e \<longrightarrow>
         wait_for_typing_completion e w t0 (ks @ f # pre @ [q]) =
           (if at_least 80 c e then Some True else None))"
    using stream_frozen [of e w t0 ks c f pre q] by blast
  have d: "observed k = Some cur \<longrightarrow>
      stall_timer e t0 (ks @ [k]) =
        (if 60 < clock_stall k -
                   (if cur = last (history ks) \<or> cur = [] then stall_timer e t0 ks
                    else clock_progress k) \<and>
            \<not> at_least 80 cur e
         then clock_reset k
         else (if cur = last (history ks) \<or> cur = [] then stall_timer e t0 ks
               else clock_progress k))"
    using stream_timer_step [of k cur e t0 ks] by (rule impI)
  have g: "list_all (below 80 e) ks \<and> list_all (in_time t0 w) ks \<longrightarrow>
      wait_for_typing_completion e w t0 ks = None"
    using below_keeps_polling [of e ks t0 w] by blast
  have h: "5 * length cur = 4 * length e \<longrightarrow> at_least 80 cur e"
    by (simp add: at_least_def)
  have i: "100 * length cur = 79 * length e \<and> e \<noteq> [] \<longrightarrow> \<not> at_least 80 cur e"
    by (auto simp: at_least_def)
  from a stalled b c have "wait_for_typing_completion e w t0 ks = None \<longrightarrow>
      (\<exists>m. typing_variables e w t0 ks = Some m \<and>
           last_progress_time m = stall_timer e t0 ks) \<and>
      (observed k = Some cur \<and> clock_loop k - t0 < w \<and>
       60 < clock_stall k -
              (if cur = last (history ks) \<or> cur = [] then stall_timer e t0 ks
               else clock_progress k) \<longrightarrow>
         wait_for_typing_completion e w t0 (ks @ [k]) =
           (if at_least 80 cur e then Some True else None)) \<and>
      (observed k = Some cur \<and> clock_loop k - t0 < w \<and>
       \<not> (6 \<le> unchanged_run cur (history ks) \<and> at_least 95 cur e) \<longrightarrow>
         wait_for_typing_completion e w t0 (ks @ [k]) =
           (if 60 < clock_stall k -
                      (if cur = last (history ks) \<or> cur = [] then stall_timer e t0 ks
                       else clock_progress k) \<and>
               at_least 80 cur e
            then Some True else None)) \<and>
      (steady c t0 w f \<and> c \<noteq> last (history ks) \<and> c \<noteq> [] \<and>
       clock_stall f - clock_progress f \<le> 60 \<and>
       list_all (calm c (clock_progress f) t0 w) pre \<and>
       steady c t0 w q \<and> 60 < clock_stall q - clock_progress f \<and> \<not> at_least 95 c e \<longrightarrow>
         wait_for_typing_completion e w t0 (ks @ f # pre @ [q]) =
           (if at_least 80 c e then Some True else None))"
    by - (rule impI, intro conjI; (erule (1) mp | assumption))
  from this d g h i show ?thesis
    by - (intro conjI; assumption)
qed

theorem stall_rule_witness:
  "wait_for_typing_completion ''abcde'' 300 0 [] = None \<and>
   steady ''abcd'' 0 300 (sample 0 ''abcd'') \<and>
   ''abcd'' \<noteq> last (history []) \<and>
   list_all (calm ''abcd'' (clock_progress (sample 0 ''abcd'')) 0 300)
     [sample 1 ''abcd'', sample 60 ''abcd''] \<and>
   steady ''abcd'' 0 300 (sample 61 ''abcd'') \<and>
   60 < clock_stall (sample 61 ''abcd'') - clock_progress (sample 0 ''abcd'') \<and>
   \<not> at_least 95 ''abcd'' ''abcde'' \<and>
   5 * length ''abcd'' = 4 * length ''abcde'' \<and>
   wait_for_typing_completion ''abcde'' 300 0
     ([] @ sample 0 ''abcd'' # [sample 1 ''abcd'', sample 60 ''abcd''] @ [sample 61 ''abcd''])
     = Some True \<and>
   steady ''abc'' 0 300 (sample 0 ''abc'') \<and>
   list_all (calm ''abc'' (clock_progress (sample 0 ''abc'')) 0 300)
     [sample 1 ''abc'', sample 60 ''abc''] \<and>
   steady ''abc'' 0 300 (sample 61 ''abc'') \<and>
   \<not> at_least 80 ''abc'' ''abcde'' \<and>
   wait_for_typing_completion ''abcde'' 300 0
     ([] @ sample 0 ''abc'' # [sample 1 ''abc'', sample 60 ''abc''] @ [sample 61 ''abc''])
     = None \<and>
   wait_for_typing_completion ''abcde'' 300 0 [sample 0 ''abcd''] = None \<and>
   observed (sample 61 ''abcd'') = Some ''abcd'' \<and>
   clock_loop (sample 61 ''abcd'') - 0 < 300 \<and>
   60 < clock_stall (sample 61 ''abcd'') - stall_timer ''abcde'' 0 [sample 0 ''abcd''] \<and>
   wait_for_typing_completion ''abcde'' 300 0 ([sample 0 ''abcd''] @ [sample 61 ''abcd''])
     = Some True \<and>
   list_all (below 80 ''abcde'') [sample 0 ''abc'', sample 100 ''abc'', sample 200 ''abc''] \<and>
   list_all (in_time 0 300) [sample 0 ''abc'', sample 100 ''abc'', sample 200 ''abc''] \<and>
   wait_for_typing_completion ''abcde'' 300 0
     [sample 0 ''abc'', sample 100 ''abc'', sample 200 ''abc''] = None \<and>
   observed (sample 61 ''abc'') = Some ''abc'' \<and>
   stall_timer ''abcde'' 0 [sample 0 ''abc''] = 0 \<and>
   stall_timer ''abcde'' 0 ([sample 0 ''abc''] @ [sample 61 ''abc'']) = 61 \<and>
   100 * length (replicate 79 (CHR ''a'')) = 79 * length (replicate 100 (CHR ''a'')) \<and>
   replicate 100 (CHR ''a'') \<noteq> [] \<and>
   \<not> at_least 80 (replicate 79 (CHR ''a'')) (replicate 100 (CHR ''a''))"
proof -
  have polling: "wait_for_typing_completion ''abcde'' 300 0 [] = None"
    by (simp add: stream_eval)
  have first: "steady ''abcd'' 0 300 (sample 0 ''abcd'')"
    by (simp add: stream_eval)
  have new: "''abcd'' \<noteq> last (history [])"
    by (simp add: stream_eval)
  have nonempty: "''abcd'' \<noteq> []"
    by simp
  have prompt: "clock_stall (sample 0 ''abcd'') - clock_progress (sample 0 ''abcd'') \<le> 60"
    by (simp add: sample_def)
  have frozen: "list_all (calm ''abcd'' (clock_progress (sample 0 ''abcd'')) 0 300)
     [sample 1 ''abcd'', sample 60 ''abcd'']"
    by (simp add: stream_eval)
  have last: "steady ''abcd'' 0 300 (sample 61 ''abcd'')"
    by (simp add: stream_eval)
  have late: "60 < clock_stall (sample 61 ''abcd'') - clock_progress (sample 0 ''abcd'')"
    by (simp add: sample_def)
  have short: "\<not> at_least 95 ''abcd'' ''abcde''"
    by (simp add: at_least_def)
  have eighty: "5 * length ''abcd'' = 4 * length ''abcde''"
    by simp
  have enough: "at_least 80 ''abcd'' ''abcde''"
    using stall_rule [where cur = "''abcd''" and e = "''abcde''",
        THEN conjunct2, THEN conjunct2, THEN conjunct2, THEN conjunct1] eighty
    by (rule mp)
  note at_80 = stall_rule [where e = "''abcde''" and w = 300 and ?t0.0 = 0 and ks = "[]"
      and c = "''abcd''" and f = "sample 0 ''abcd''"
      and pre = "[sample 1 ''abcd'', sample 60 ''abcd'']" and q = "sample 61 ''abcd''",
      THEN conjunct1, THEN mp, OF polling, THEN conjunct2, THEN conjunct2, THEN conjunct2,
      THEN mp,
      OF conjI [OF first conjI [OF new conjI [OF nonempty conjI [OF prompt
         conjI [OF frozen conjI [OF last conjI [OF late short]]]]]]]]
  have accepted: "wait_for_typing_completion ''abcde'' 300 0
     ([] @ sample 0 ''abcd'' # [sample 1 ''abcd'', sample 60 ''abcd''] @ [sample 61 ''abcd''])
     = Some True"
    using at_80 enough by (simp only: if_True)
  have first': "steady ''abc'' 0 300 (sample 0 ''abc'')"
    by (simp add: stream_eval)
  have new': "''abc'' \<noteq> last (history [])"
    by (simp add: stream_eval)
  have nonempty': "''abc'' \<noteq> []"
    by simp
  have prompt': "clock_stall (sample 0 ''abc'') - clock_progress (sample 0 ''abc'') \<le> 60"
    by (simp add: sample_def)
  have frozen': "list_all (calm ''abc'' (clock_progress (sample 0 ''abc'')) 0 300)
     [sample 1 ''abc'', sample 60 ''abc'']"
    by (simp add: stream_eval)
  have last': "steady ''abc'' 0 300 (sample 61 ''abc'')"
    by (simp add: stream_eval)
  have late': "60 < clock_stall (sample 61 ''abc'') - clock_progress (sample 0 ''abc'')"
    by (simp add: sample_def)
  have short': "\<not> at_least 95 ''abc'' ''abcde''"
    by (simp add: at_least_def)
  have less: "\<not> at_least 80 ''abc'' ''abcde''"
    by (simp add: at_least_def)
  note at_60 = stall_rule [where e = "''abcde''" and w = 300 and ?t0.0 = 0 and ks = "[]"
      and c = "''abc''" and f = "sample 0 ''abc''"
      and pre = "[sample 1 ''abc'', sample 60 ''abc'']" and q = "sample 61 ''abc''",
      THEN conjunct1, THEN mp, OF polling, THEN conjunct2, THEN conjunct2, THEN conjunct2,
      THEN mp,
      OF conjI [OF first' conjI [OF new' conjI [OF nonempty' conjI [OF prompt'
         conjI [OF frozen' conjI [OF last' conjI [OF late' short']]]]]]]]
  have rejected: "wait_for_typing_completion ''abcde'' 300 0
     ([] @ sample 0 ''abc'' # [sample 1 ''abc'', sample 60 ''abc''] @ [sample 61 ''abc''])
     = None"
    using at_60 less by (simp only: if_False)
  have polling1: "wait_for_typing_completion ''abcde'' 300 0 [sample 0 ''abcd''] = None"
    by (simp add: stream_eval)
  have seen1: "observed (sample 61 ''abcd'') = Some ''abcd''"
    by (simp add: stream_eval)
  have time1: "clock_loop (sample 61 ''abcd'') - 0 < 300"
    by (simp add: sample_def)
  have late1: "60 < clock_stall (sample 61 ''abcd'') - stall_timer ''abcde'' 0 [sample 0 ''abcd'']"
    by (simp add: stream_eval)
  have same1: "''abcd'' = last (history [sample 0 ''abcd''])"
    by (simp add: stream_eval)
  have late1': "60 < clock_stall (sample 61 ''abcd'') -
      (if ''abcd'' = last (history [sample 0 ''abcd'']) \<or> ''abcd'' = []
       then stall_timer ''abcde'' 0 [sample 0 ''abcd''] else clock_progress (sample 61 ''abcd''))"
    using late1 same1 by simp
  note at_stall = stall_rule [where e = "''abcde''" and w = 300 and ?t0.0 = 0
      and ks = "[sample 0 ''abcd'']" and k = "sample 61 ''abcd''" and cur = "''abcd''",
      THEN conjunct1, THEN mp, OF polling1, THEN conjunct2, THEN conjunct1, THEN mp,
      OF conjI [OF seen1 conjI [OF time1 late1']]]
  have stalled: "wait_for_typing_completion ''abcde'' 300 0
      ([sample 0 ''abcd''] @ [sample 61 ''abcd'']) = Some True"
    using at_stall enough by (simp only: if_True)
  have under: "list_all (below 80 ''abcde'')
      [sample 0 ''abc'', sample 100 ''abc'', sample 200 ''abc'']"
    by (simp add: stream_eval)
  have timely: "list_all (in_time 0 300)
      [sample 0 ''abc'', sample 100 ''abc'', sample 200 ''abc'']"
    by (simp add: stream_eval)
  have waiting: "wait_for_typing_completion ''abcde'' 300 0
      [sample 0 ''abc'', sample 100 ''abc'', sample 200 ''abc''] = None"
    using stall_rule [where e = "''abcde''" and w = 300 and ?t0.0 = 0
        and ks = "[sample 0 ''abc'', sample 100 ''abc'', sample 200 ''abc'']",
        THEN conjunct2, THEN conjunct2, THEN conjunct1] conjI [OF under timely]
    by (rule mp)
  have seen: "observed (sample 61 ''abc'') = Some ''abc''"
    by (simp add: stream_eval)
  have timer: "stall_timer ''abcde'' 0 [sample 0 ''abc''] = 0"
    by (simp add: stream_eval)
  have restarted: "stall_timer ''abcde'' 0 ([sample 0 ''abc''] @ [sample 61 ''abc'']) = 61"
    unfolding stall_rule [where e = "''abcde''" and ?t0.0 = 0 and ks = "[sample 0 ''abc'']"
        and k = "sample 61 ''abc''" and cur = "''abc''",
        THEN conjunct2, THEN conjunct1, THEN mp, OF seen] timer
    by (simp add: stream_eval)
  have len: "100 * length (replicate 79 (CHR ''a'')) = 79 * length (replicate 100 (CHR ''a''))"
    by simp
  have ne: "replicate 100 (CHR ''a'') \<noteq> []"
    by simp
  have rej: "\<not> at_least 80 (replicate 79 (CHR ''a'')) (replicate 100 (CHR ''a''))"
    using stall_rule [where cur = "replicate 79 (CHR ''a'')" and e = "replicate 100 (CHR ''a'')",
        THEN conjunct2, THEN conjunct2, THEN conjunct2, THEN conjunct2] conjI [OF len ne]
    by (rule mp)
  from polling first new frozen last late short eighty accepted first' frozen' last' less
    rejected polling1 seen1 time1 late1 stalled under timely waiting seen timer restarted
    len ne rej
  show ?thesis
    by - (intro conjI; assumption)
qed

theorem stall_rule_counterexample:
  "at_least 80 ''abcd'' ''abcde'' \<and> length ''abcx'' = length ''abcd'' \<and>
   wait_for_typing_completion ''abcde'' 300 0
     [sample 0 ''abcd'', sample 50 ''abcx'', sample 100 ''abcd''] = None \<and>
   stall_timer ''abcde'' 0 [sample 0 ''abcd'', sample 50 ''abcx'', sample 100 ''abcd''] = 100 \<and>
   wait_for_typing_completion ''abcde'' 300 0
     [sample 0 ''abcd'', sample 50 ''abcx'', sample 100 ''abcd'', sample 300 ''abcd''] = Some False"
  by (simp add: stream_eval)

section \<open>Properties of the submitter, the extractor and the request handler\<close>

lemma and_then_Inr: "and_then (Inr x, l) f = after l (f x)"
  by (simp add: and_then_def)

lemma and_then_Inl: "and_then (Inl e, l) f = (Inl e, l)"
  by (simp add: and_then_def)

lemma before_Inr: "before (Inr x, l) n = after l n"
  by (simp add: before_def and_then_def)

lemma before_Inl: "before (Inl e, l) n = (Inl e, l)"
  by (simp add: before_def and_then_def)

lemma handle_Inr: "handle (Inr x, l) h = (Inr x, l)"
  by (simp add: handle_def)

lemma handle_Inl: "handle (Inl e, l) h = after l (h e)"
  by (simp add: handle_def)

lemma after_pair: "after l (r, l') = (r, l @ l')"
  by (simp add: after_def)

lemma after_Nil: "after [] r = r"
  by (simp add: after_def)

lemma after_after: "after l (after l' r) = after (l @ l') r"
  by (simp add: after_def)

lemma act_None: "act a None = (Inr (), [a])"
  by (simp add: act_def)

lemma act_Some: "act a (Some e) = (Inl e, [a])"
  by (simp add: act_def)

lemmas run_simps = and_then_Inr and_then_Inl before_Inr before_Inl handle_Inr handle_Inl
  after_pair act_None act_Some ret_def raise_def sleep_def

lemma three_attempts: "[1..<4] = [1, 2, 3::nat]"
  by code_simp

lemma first_attempts: "[0..<3] = [0, 1, 2::nat]"
  by code_simp



lemma fallback_trace:
  "fallback_reading env = Element_text tc txt \<Longrightarrow>
   snd (keyboard_fallback env c) =
     Read_field #
       (if strip (text_of tc txt) = []
        then Send_keys (Text c) #
               (if retype env = None
                then Sleep (1/5) # Send_keys CtrlReturn #
                       (if ctrl_return env = None then [Sleep 2] else enter_trace env)
                else enter_trace env)
        else Send_keys CtrlReturn #
               (if ctrl_return env = None then [Sleep 2] else enter_trace env))"
  by (auto simp: keyboard_fallback_def enter_trace_def read_field_def
      handle_def and_then_def before_def after_def act_def ret_def raise_def sleep_def
      split: option.splits)

lemma fallback_trace_unreadable:
  "fallback_reading env = Unreadable e \<Longrightarrow>
   snd (keyboard_fallback env c) = Read_field # enter_trace env"
  by (auto simp: keyboard_fallback_def enter_trace_def read_field_def
      handle_def and_then_def before_def after_def act_def ret_def raise_def sleep_def
      split: option.splits)



lemma research_all_missing:
  "missing (research_lookup env 0) \<and> missing (research_lookup env 1) \<and>
   missing (research_lookup env 2) \<Longrightarrow>
   select_research_mode env =
     (False, [Find Research_testid, Sleep 1, Find Research_testid, Sleep 1, Find Research_testid])"
  unfolding select_research_mode_def first_attempts
  by (auto simp: after_def missing_def split: lookup.splits)

lemma research_clicks_fail:
  "visible (research_lookup env 0) \<Longrightarrow> research_click env = Some e1 \<Longrightarrow>
   research_script_click env = Some e2 \<Longrightarrow>
   select_research_mode env =
     (False, [Find Research_testid, Click Research_button, Script_click Research_button])"
  unfolding select_research_mode_def first_attempts
  by (auto simp: after_def visible_def)

lemma fst_after: "fst (after l r) = fst r"
  by (simp add: after_def)

lemma snd_after: "snd (after l r) = l @ snd r"
  by (simp add: after_def)

lemma fst_and_then:
  "fst (and_then m f) = (case fst m of Inl e \<Rightarrow> Inl e | Inr x \<Rightarrow> fst (f x))"
  by (simp add: and_then_def after_def split: sum.splits)

lemma fst_before:
  "fst (before m n) = (case fst m of Inl e \<Rightarrow> Inl e | Inr x \<Rightarrow> fst n)"
  by (simp add: before_def fst_and_then)

lemma fst_handle:
  "fst (handle m h) = (case fst m of Inl e \<Rightarrow> fst (h e) | Inr x \<Rightarrow> Inr x)"
  by (simp add: handle_def after_def split: sum.splits)

lemma fst_ensure:
  "fst (ensure m f) = (case fst f of Inl e \<Rightarrow> Inl e | Inr u \<Rightarrow> fst m)"
  by (simp add: ensure_def split: sum.splits)

lemma after_typing_research:
  "fst (after_typing pg c True done) = fst (after_typing pg c False done)"
  by (simp add: after_typing_def fst_before ret_def split: sum.splits)

lemma input_research:
  "map_option fst (inputFieldCheck pg c True) = map_option fst (inputFieldCheck pg c False)"
  by (auto simp: inputFieldCheck_def fst_after after_typing_research
      split: prod.splits sum.splits option.splits)

lemma run_research:
  "map_option fst (run_perplexity str env p True) = map_option fst (run_perplexity str env p False)"
proof (cases "inputFieldCheck (page_env env) p True")
  case None
  then have "inputFieldCheck (page_env env) p False = None"
    using input_research [of "page_env env" p] by (cases "inputFieldCheck (page_env env) p False") auto
  then show ?thesis
    using None by (simp add: run_perplexity_def split: option.splits)
next
  case (Some a)
  then obtain b where b: "inputFieldCheck (page_env env) p False = Some b" and "fst a = fst b"
    using input_research [of "page_env env" p] by (cases "inputFieldCheck (page_env env) p False") auto
  then show ?thesis
    using Some
    by (simp add: run_perplexity_def fst_after fst_ensure fst_handle fst_before
        split: option.splits sum.splits)
qed

lemma post_ask_research:
  "post_ask str env \<lparr>prompt = p, use_research_mode = True\<rparr> =
   post_ask str env \<lparr>prompt = p, use_research_mode = False\<rparr>"
proof -
  have "map_option fst (ask_perplexity str env \<lparr>prompt = p, use_research_mode = True\<rparr>) =
        map_option fst (ask_perplexity str env \<lparr>prompt = p, use_research_mode = False\<rparr>)"
    using run_research [of str env p]
    by (cases "run_perplexity str env p True"; cases "run_perplexity str env p False")
       (auto simp: ask_perplexity_def fst_handle fst_and_then)
  then show ?thesis
    by (cases "ask_perplexity str env \<lparr>prompt = p, use_research_mode = True\<rparr>";
        cases "ask_perplexity str env \<lparr>prompt = p, use_research_mode = False\<rparr>")
       (auto simp: post_ask_def http_reply_def)
qed

lemma loop_False_ceiling:
  "monitor_loop e s w m ks = Some False \<Longrightarrow> list_ex (\<lambda>k. w \<le> clock_loop k - s) ks"
proof (induction ks arbitrary: m)
  case Nil
  then show ?case by simp
next
  case (Cons k ks)
  show ?case
  proof (cases "clock_loop k - s < w")
    case False
    then show ?thesis by simp
  next
    case True
    then show ?thesis
      using Cons poll_never_gives_up [of e m k]
      by (cases "poll e m k") auto
  qed
qed

lemma final_check_cases:
  "final_check (Element_text tc txt) c =
     (if 2 * length (strip (text_of tc txt)) < length c
      then (Inl (Exception ''Cannot verify text completion after extended wait''), [Read_field])
      else (Inr (), [Read_field]))"
  "final_check (Unreadable e) c =
     (Inl (Exception ''Cannot verify text completion after extended wait''), [Read_field])"
  by (auto simp: final_check_def read_field_def at_least_def
      handle_def and_then_def after_def ret_def raise_def)

lemma input_after_timeout:
  assumes "enter_prompt (typing_part pg) c = (Inr (), l)"
    and "wait_for_typing_completion c 300 (start_clock (typing_part pg)) (ticks (typing_part pg))
           = Some False"
  shows "inputFieldCheck pg c research =
     Some (case final_reading (typing_part pg) of
             Unreadable e \<Rightarrow>
               (Inl (Exception ''Cannot verify text completion after extended wait''), l @ [Read_field])
           | Element_text tc txt \<Rightarrow>
               if 2 * length (strip (text_of tc txt)) < length c
               then (Inl (Exception ''Cannot verify text completion after extended wait''),
                     l @ [Read_field])
               else after (l @ [Read_field])
                      (before (if research
                               then (Inr (), snd (select_research_mode (research_part pg)))
                               else ret ())
                         (submit_prompt (submit_part pg) c)))"
  using assms
  by (auto simp: inputFieldCheck_def after_typing_def final_check_cases before_def and_then_def
      after_def split: reading.splits)

lemma sf_append: "session_free (l @ l') = (session_free l \<and> session_free l')"
  by (auto simp: session_free_def)

lemma sf_after: "session_free (snd (after l r)) = (session_free l \<and> session_free (snd r))"
  by (simp add: after_def sf_append)

lemma sf_and_then:
  "session_free (snd m) \<Longrightarrow> (\<And>x. session_free (snd (f x))) \<Longrightarrow> session_free (snd (and_then m f))"
  by (simp add: and_then_def sf_after split: sum.splits)

lemma sf_before:
  "session_free (snd m) \<Longrightarrow> session_free (snd n) \<Longrightarrow> session_free (snd (before m n))"
  by (simp add: before_def sf_and_then)

lemma sf_handle:
  "session_free (snd m) \<Longrightarrow> (\<And>e. session_free (snd (h e))) \<Longrightarrow> session_free (snd (handle m h))"
  by (simp add: handle_def sf_after split: sum.splits)

lemma sf_act: "a \<noteq> Launch \<Longrightarrow> a \<noteq> Quit \<Longrightarrow> session_free (snd (act a outcome))"
  by (simp add: act_def session_free_def split: option.splits)

lemma sf_ret: "session_free (snd (ret x))"
  by (simp add: ret_def session_free_def)

lemma sf_raise: "session_free (snd (raise e))"
  by (simp add: raise_def session_free_def)

lemma sf_sleep: "session_free (snd (sleep t))"
  by (simp add: sleep_def session_free_def)

lemmas sf_rules = sf_and_then sf_before sf_handle sf_act sf_ret sf_raise sf_sleep

lemma sf_send_all: "session_free (snd (send_all outcome i ks))"
  by (induction ks arbitrary: i) (auto intro!: sf_rules)

lemma sf_enter_prompt: "session_free (snd (enter_prompt env c))"
  by (auto simp: enter_prompt_def intro!: sf_rules sf_send_all)

lemma sf_read_field: "session_free (snd (read_field r))"
  by (simp add: read_field_def session_free_def split: reading.splits)

lemma sf_final_check: "session_free (snd (final_check r c))"
  by (auto simp: final_check_def intro!: sf_rules sf_read_field)

lemma sf_research_attempts: "session_free (snd (research_attempts look n as b))"
  by (induction as arbitrary: b)
     (auto simp: session_free_def after_def split: lookup.splits sum.splits bool.splits)

lemma sf_select_research_mode: "session_free (snd (select_research_mode env))"
  using sf_research_attempts [of "research_lookup env" 3 "[0..<3]" False]
  by (auto simp: select_research_mode_def session_free_def
      split: prod.splits sum.splits option.splits)

lemma sf_submit_attempts: "session_free (snd (submit_attempts look aria n as b))"
  by (induction as arbitrary: b)
     (auto simp: session_free_def after_def split: lookup.splits sum.splits bool.splits)

lemma sf_keyboard_fallback: "session_free (snd (keyboard_fallback env c))"
  by (auto simp: keyboard_fallback_def intro!: sf_rules sf_read_field)

lemma sf_submit_prompt: "session_free (snd (submit_prompt env c))"
  using sf_submit_attempts [of "submit_lookup env" "submit_aria_lookup env" 3 "[1..<4]" False]
  by (auto simp: submit_prompt_def find_submit_button_def sf_after split: prod.splits
      intro!: sf_rules sf_keyboard_fallback)

lemma sf_after_typing: "session_free (snd (after_typing pg c research done))"
  using sf_select_research_mode [of "research_part pg"]
  by (auto simp: after_typing_def intro!: sf_rules sf_final_check sf_submit_prompt)

lemma sf_inputFieldCheck:
  assumes "inputFieldCheck pg c research = Some r"
  shows "session_free (snd r)"
proof -
  obtain out l where ep: "enter_prompt (typing_part pg) c = (out, l)"
    by (cases "enter_prompt (typing_part pg) c")
  have l: "session_free l"
    using sf_enter_prompt [of "typing_part pg" c] ep by simp
  show ?thesis
  proof (cases out)
    case (Inl e)
    then show ?thesis
      using assms ep l by (auto simp: inputFieldCheck_def)
  next
    case (Inr u)
    then show ?thesis
      using assms ep l
      by (auto simp: inputFieldCheck_def sf_after sf_after_typing split: option.splits)
  qed
qed

lemma sf_copy_attempts: "session_free (snd (copy_attempts x n as))"
  by (induction as) (auto intro!: sf_rules)

lemma sf_click_copy: "session_free (snd (click_copy x))"
  by (auto simp: click_copy_def intro!: sf_rules)

lemma sf_clipboard_reads: "session_free (snd (clipboard_reads rd as c))"
  by (induction as arbitrary: c)
     (auto simp: session_free_def after_def split: sum.splits)

lemma sf_getResult: "session_free (snd (getResult x))"
  using sf_clipboard_reads [of "clipboard x" "[0..<3]" None]
  by (auto simp: getResult_def sf_after split: prod.splits option.splits sum.splits
      intro!: sf_rules sf_copy_attempts sf_click_copy)

lemma run_unlaunched:
  "launch env = Some e \<Longrightarrow>
   run_perplexity str env p research = Some (Inl (processing_error str e), [])"
  by (simp add: run_perplexity_def raise_def)

lemma snd_handle_raise: "snd (handle m (\<lambda>e. raise (g e))) = snd m"
  by (simp add: handle_def raise_def after_def split: sum.splits)

lemma snd_ensure_quit: "snd (ensure m (act Quit outcome)) = snd m @ [Quit]"
  by (simp add: ensure_def act_def split: option.splits)

lemma run_launched:
  assumes "launch env = None" and "run_perplexity str env p research = Some (r, l)"
  shows "\<exists>mid. l = Launch # mid @ [Quit] \<and> session_free mid"
proof (cases "navigation env")
  case (Some e)
  then have "l = Launch # [Open_page] @ [Quit]"
    using assms by (auto simp: run_perplexity_def after_def snd_ensure_quit snd_handle_raise)
  moreover have "session_free [Open_page]"
    by (simp add: session_free_def)
  ultimately show ?thesis by blast
next
  case None
  then obtain sub where sub: "inputFieldCheck (page_env env) p research = Some sub"
    using assms by (auto simp: run_perplexity_def)
  let ?mid = "snd (after [Open_page, Sleep 10] (before sub (getResult (extraction_env env))))"
  have "l = Launch # ?mid @ [Quit]"
    using assms None sub
    by (auto simp: run_perplexity_def after_def snd_ensure_quit snd_handle_raise)
  moreover have "session_free ?mid"
  proof -
    have "session_free (snd (before sub (getResult (extraction_env env))))"
      using sf_inputFieldCheck [OF sub] sf_getResult [of "extraction_env env"]
      by (rule sf_before)
    moreover have "session_free [Open_page, Sleep 10]"
      by (simp add: session_free_def)
    ultimately show ?thesis
      by (simp add: sf_after)
  qed
  ultimately show ?thesis by blast
qed

lemma well_scoped_inside:
  "session_free mid \<Longrightarrow> well_scoped True (mid @ l) = well_scoped True l"
  by (induction mid) (auto simp: session_free_def)

lemma well_scoped_session:
  "session_free mid \<Longrightarrow> well_scoped False ((Launch # mid @ [Quit]) @ l) = well_scoped False l"
  using well_scoped_inside [of mid "Quit # l"] by simp

lemma count_session:
  "session_free mid \<Longrightarrow>
   count_list (Launch # mid @ [Quit]) Launch = 1 \<and> count_list (Launch # mid @ [Quit]) Quit = 1"
  by (simp add: session_free_def)

lemma ask_trace:
  assumes "ask_perplexity str env req = Some a"
  shows "\<exists>r. run_perplexity str env (prompt req) (use_research_mode req) = Some r \<and> snd a = snd r"
proof -
  obtain r where r: "run_perplexity str env (prompt req) (use_research_mode req) = Some r"
    and a: "a = handle (and_then r (\<lambda>result. ret (Response_field result)))
                  (\<lambda>e. raise (HTTPException 500 (str_of str e)))"
    using assms by (auto simp: ask_perplexity_def)
  have "snd (and_then r (\<lambda>result. ret (Response_field result))) = snd r"
    by (simp add: and_then_def after_def ret_def split: sum.splits)
  then have "snd a = snd r"
    using a by (simp add: snd_handle_raise)
  then show ?thesis
    using r by blast
qed

lemma ask_well_scoped:
  assumes "ask_perplexity str env req = Some a"
  shows "well_scoped False (snd a @ l) = well_scoped False l"
proof -
  obtain r where r: "run_perplexity str env (prompt req) (use_research_mode req) = Some r"
    and eq: "snd a = snd r"
    using ask_trace [OF assms] by blast
  show ?thesis
  proof (cases "launch env")
    case None
    then obtain mid where "snd r = Launch # mid @ [Quit]" and "session_free mid"
      using run_launched [of env str "prompt req" "use_research_mode req" "fst r" "snd r"] r
      by auto
    then show ?thesis
      using eq well_scoped_session [of mid l] by simp
  next
    case (Some e)
    then have "snd r = []"
      using r run_unlaunched [of env e str "prompt req" "use_research_mode req"] by auto
    then show ?thesis
      using eq by simp
  qed
qed

lemma serve_well_scoped: "serve str reqs = Some t \<Longrightarrow> well_scoped False t"
proof (induction reqs arbitrary: t)
  case Nil
  then show ?case by simp
next
  case (Cons x reqs)
  obtain env req where x: "x = (env, req)"
    by (cases x)
  obtain a t' where a: "ask_perplexity str env req = Some a" and t': "serve str reqs = Some t'"
    and t: "t = snd a @ t'"
    using Cons.prems x by (auto split: option.splits)
  show ?case
    using ask_well_scoped [OF a, of t'] Cons.IH [OF t'] t by simp
qed

lemma reply_success:
  "run_perplexity str env (prompt req) (use_research_mode req) = Some (Inr answer, l) \<Longrightarrow>
   post_ask str env req = Some (200, Response_field answer)"
  by (simp add: post_ask_def ask_perplexity_def http_reply_def fst_handle fst_and_then ret_def)

lemma reply_failure:
  "run_perplexity str env (prompt req) (use_research_mode req) = Some (Inl e, l) \<Longrightarrow>
   post_ask str env req = Some (500, Detail_field (str_of str e))"
  by (simp add: post_ask_def ask_perplexity_def http_reply_def fst_handle fst_and_then raise_def)

lemma reply_kinds:
  "post_ask str env req = None \<or>
   (\<exists>answer. post_ask str env req = Some (200, Response_field answer)) \<or>
   (\<exists>detail. post_ask str env req = Some (500, Detail_field detail))"
proof (cases "run_perplexity str env (prompt req) (use_research_mode req)")
  case None
  then show ?thesis
    by (simp add: post_ask_def ask_perplexity_def)
next
  case (Some r)
  then show ?thesis
    using reply_success [of str env req _ "snd r"] reply_failure [of str env req _ "snd r"]
    by (cases r; cases "fst r") auto
qed

lemma run_outcome:
  assumes "launch env = None" and "navigation env = None"
    and "inputFieldCheck (page_env env) p research = Some sub"
  shows "map_option fst (run_perplexity str env p research) =
     Some (case quit_call env of
             Some q \<Rightarrow> Inl q
           | None \<Rightarrow>
               (case fst sub of
                  Inl e \<Rightarrow> Inl (processing_error str e)
                | Inr u \<Rightarrow>
                    (case fst (getResult (extraction_env env)) of
                       Inl e \<Rightarrow> Inl (processing_error str e)
                     | Inr answer \<Rightarrow> Inr answer)))"
  using assms
  by (auto simp: run_perplexity_def fst_after fst_ensure fst_handle fst_before act_def raise_def
      split: option.splits sum.splits)

lemma run_navigation_failure:
  assumes "launch env = None" and "navigation env = Some e"
  shows "map_option fst (run_perplexity str env p research) =
     Some (case quit_call env of Some q \<Rightarrow> Inl q | None \<Rightarrow> Inl (processing_error str e))"
  using assms
  by (auto simp: run_perplexity_def fst_after fst_ensure fst_handle act_def raise_def
      split: option.splits sum.splits)

section \<open>Claims about the prompt submitter\<close>

lemmas detector_eval = wait_for_typing_completion_def sample_def poll_def check_stable_def
  check_stalled_def at_least_def text_of_def strip_def isspace_def

lemmas run_eval = and_then_def before_def handle_def ensure_def after_def act_def ret_def
  raise_def sleep_def

lemma find_submit_button_unfold:
  "find_submit_button env =
     submit_attempts (submit_lookup env) (submit_aria_lookup env) 3 [1, 2, 3] False"
  by (simp only: find_submit_button_def three_attempts)








lemma select_research_mode_unfold:
  "select_research_mode env =
     (case research_attempts (research_lookup env) 3 [0, 1, 2] False of
        (Inl r, l) \<Rightarrow> (r, l)
      | (Inr research_button, l) \<Rightarrow>
          (if research_button then
             (case research_click env of
                None \<Rightarrow> (True, l @ [Click Research_button, Sleep (1/2)])
              | Some click_error \<Rightarrow>
                  (case research_script_click env of
                     None \<Rightarrow>
                       (True, l @ [Click Research_button, Script_click Research_button, Sleep (1/2)])
                   | Some js_error \<Rightarrow>
                       (False, l @ [Click Research_button, Script_click Research_button])))
           else (False, l)))"
  by (simp only: select_research_mode_def first_attempts)

lemma five_attempts: "[1..<6] = [1, 2, 3, 4, 5::nat]"
  by code_simp

lemma five_attempts_Suc: "[Suc 0..<6] = [1, 2, 3, 4, 5::nat]"
  by code_simp

lemma six_selectors: "[0..<6] = [0, 1, 2, 3, 4, 5::nat]"
  by code_simp

lemmas submitter_eval = inputFieldCheck_def after_typing_def enter_prompt_def typing_keys_def
  newline_def read_field_def final_check_def select_research_mode_unfold submit_prompt_def
  find_submit_button_unfold keyboard_fallback_def aria_fallback_def

lemmas scenario_eval = smooth_typing_def no_research_def smooth_submit_def
  smooth_extraction_def smooth_session_def plain_str_def

text \<open>
  C3.  The detector returns \<open>False\<close> only at a loop-clock reading of 300 seconds or more
  after its start.  When the prompt has been typed and the detector has returned \<open>False\<close>,
  \<open>inputFieldCheck\<close> reads the field once more; if the stripped text is shorter than half
  the prompt, the operation fails, and otherwise it goes on, with the optional research
  step and the submission.
\<close>

theorem final_check_rule:
  "(wait_for_typing_completion c 300 t0 ks = Some False \<longrightarrow>
      list_ex (\<lambda>k. 300 \<le> clock_loop k - t0) ks) \<and>
   (enter_prompt (typing_part pg) c = (Inr (), l) \<and>
    wait_for_typing_completion c 300 (start_clock (typing_part pg)) (ticks (typing_part pg))
      = Some False \<and>
    final_reading (typing_part pg) = Element_text tc txt \<longrightarrow>
      inputFieldCheck pg c research =
        Some (if 2 * length (strip (text_of tc txt)) < length c
              then (Inl (Exception ''Cannot verify text completion after extended wait''),
                    l @ [Read_field])
              else after (l @ [Read_field])
                     (before (if research
                              then (Inr (), snd (select_research_mode (research_part pg)))
                              else ret ())
                        (submit_prompt (submit_part pg) c))))"
proof (intro conjI impI)
  assume "wait_for_typing_completion c 300 t0 ks = Some False"
  then show "list_ex (\<lambda>k. 300 \<le> clock_loop k - t0) ks"
    using loop_False_ceiling by (simp add: wait_for_typing_completion_def)
next
  assume a: "enter_prompt (typing_part pg) c = (Inr (), l) \<and>
    wait_for_typing_completion c 300 (start_clock (typing_part pg)) (ticks (typing_part pg))
      = Some False \<and>
    final_reading (typing_part pg) = Element_text tc txt"
  then show "inputFieldCheck pg c research =
        Some (if 2 * length (strip (text_of tc txt)) < length c
              then (Inl (Exception ''Cannot verify text completion after extended wait''),
                    l @ [Read_field])
              else after (l @ [Read_field])
                     (before (if research
                              then (Inr (), snd (select_research_mode (research_part pg)))
                              else ret ())
                        (submit_prompt (submit_part pg) c)))"
    using input_after_timeout [of pg c l research] by simp
qed

lemma stuck_enter:
  "enter_prompt (typing_part (stuck_page ''ab'' final)) ''abcde'' =
     (Inr (), [Find Input_div, Click Input_field, Sleep (1/2), Find Input_div, Clear,
               Send_keys (Text ''abcde'')])"
  by (simp add: stuck_page_def scenario_eval submitter_eval run_eval)

lemma stuck_wait:
  "wait_for_typing_completion ''abcde'' 300 (start_clock (typing_part (stuck_page ''ab'' final)))
     (ticks (typing_part (stuck_page ''ab'' final))) = Some False"
  by (simp add: stuck_page_def scenario_eval detector_eval)

theorem final_check_rule_witness:
  "wait_for_typing_completion ''abcde'' 300 0
     [sample 1 ''ab'', sample 100 ''ab'', sample 200 ''ab'', sample 300 ''ab''] = Some False \<and>
   list_ex (\<lambda>k. 300 \<le> clock_loop k - 0)
     [sample 1 ''ab'', sample 100 ''ab'', sample 200 ''ab'', sample 300 ''ab''] \<and>
   inputFieldCheck (stuck_page ''ab'' ''ab'') ''abcde'' False =
     Some (Inl (Exception ''Cannot verify text completion after extended wait''),
           [Find Input_div, Click Input_field, Sleep (1/2), Find Input_div, Clear,
            Send_keys (Text ''abcde''), Read_field]) \<and>
   inputFieldCheck (stuck_page ''ab'' ''abc'') ''abcde'' False =
     Some (Inr (),
           [Find Input_div, Click Input_field, Sleep (1/2), Find Input_div, Clear,
            Send_keys (Text ''abcde''), Read_field,
            Sleep (1/5), Find Submit_testid, Click Submit_button, Sleep 3])"
proof -
  let ?ks = "[sample 1 ''ab'', sample 100 ''ab'', sample 200 ''ab'', sample 300 ''ab'']"
  let ?l = "[Find Input_div, Click Input_field, Sleep (1/2), Find Input_div, Clear,
            Send_keys (Text ''abcde'')]"
  have w: "wait_for_typing_completion ''abcde'' 300 0 ?ks = Some False"
    by (simp add: detector_eval)
  have ceiling: "list_ex (\<lambda>k. 300 \<le> clock_loop k - 0) ?ks"
    using final_check_rule [of "''abcde''" 0 ?ks "stuck_page ''ab'' ''ab''" ?l None "''ab''" False] w
    by blast
  have r1: "final_reading (typing_part (stuck_page ''ab'' ''ab'')) = Element_text None ''ab''"
    by (simp add: stuck_page_def scenario_eval)
  have r2: "final_reading (typing_part (stuck_page ''ab'' ''abc'')) = Element_text None ''abc''"
    by (simp add: stuck_page_def scenario_eval)
  have s: "submit_prompt (submit_part (stuck_page ''ab'' ''abc'')) ''abcde'' =
      (Inr (), [Sleep (1/5), Find Submit_testid, Click Submit_button, Sleep 3])"
    by (simp add: stuck_page_def scenario_eval submitter_eval run_eval)
  have f1: "inputFieldCheck (stuck_page ''ab'' ''ab'') ''abcde'' False =
     Some (Inl (Exception ''Cannot verify text completion after extended wait''), ?l @ [Read_field])"
    using final_check_rule [of "''abcde''" 0 ?ks "stuck_page ''ab'' ''ab''" ?l None "''ab''" False]
      stuck_enter [of "''ab''"] stuck_wait [of "''ab''"] r1
    by (simp add: detector_eval)
  have f2: "inputFieldCheck (stuck_page ''ab'' ''abc'') ''abcde'' False =
     Some (Inr (), ?l @ [Read_field, Sleep (1/5), Find Submit_testid, Click Submit_button, Sleep 3])"
    using final_check_rule [of "''abcde''" 0 ?ks "stuck_page ''ab'' ''abc''" ?l None "''abc''" False]
      stuck_enter [of "''abc''"] stuck_wait [of "''abc''"] r2 s
    by (simp add: detector_eval run_eval)
  show ?thesis
    using w ceiling f1 f2 by simp
qed

lemma input_research_trace:
  assumes "inputFieldCheck pg c False = Some (Inr (), l)"
  shows "\<exists>l1. l = l1 @ snd (submit_prompt (submit_part pg) c) \<and>
     inputFieldCheck pg c True =
       Some (Inr (), l1 @ snd (select_research_mode (research_part pg)) @
                     snd (submit_prompt (submit_part pg) c))"
proof -
  obtain out l0 where ep: "enter_prompt (typing_part pg) c = (out, l0)"
    by (cases "enter_prompt (typing_part pg) c")
  obtain finished where w: "wait_for_typing_completion c 300
      (start_clock (typing_part pg)) (ticks (typing_part pg)) = Some finished" and out: "out = Inr ()"
    using assms ep by (auto simp: inputFieldCheck_def split: sum.splits option.splits)
  let ?check = "if \<not> finished then final_check (final_reading (typing_part pg)) c else ret ()"
  obtain o1 l1 where ch: "?check = (o1, l1)"
    by (cases ?check)
  have ok: "o1 = Inr ()"
    using assms ep w out ch
    by (auto simp: inputFieldCheck_def after_typing_def before_def and_then_def after_def
        split: sum.splits)
  have "l = (l0 @ l1) @ snd (submit_prompt (submit_part pg) c)"
    using assms ep w out ch ok
    by (auto simp: inputFieldCheck_def after_typing_def before_def and_then_def after_def ret_def)
  moreover have "inputFieldCheck pg c True =
      Some (Inr (), (l0 @ l1) @ snd (select_research_mode (research_part pg)) @
                    snd (submit_prompt (submit_part pg) c))"
    using assms ep w out ch ok
    by (auto simp: inputFieldCheck_def after_typing_def before_def and_then_def after_def ret_def
        split: sum.splits)
  ultimately show ?thesis by blast
qed

text \<open>
  C8.  \<open>select_research_mode\<close> returns \<open>False\<close>, and raises nothing, when every one of
  its three lookups raises (with a one-second pause after the first and the second), and
  when the native click and the scripted click both raise.  Whatever the research step
  does, \<open>inputFieldCheck\<close> ends as it does without it; a successful run in research mode
  performs the same typing and the same submission, with the research step's calls between
  them; and the HTTP reply of a request is the same with and without research mode.
\<close>

theorem research_failure_not_fatal:
  "(missing (research_lookup r 0) \<and> missing (research_lookup r 1) \<and>
    missing (research_lookup r 2) \<longrightarrow>
      select_research_mode r =
        (False, [Find Research_testid, Sleep 1, Find Research_testid, Sleep 1,
                 Find Research_testid])) \<and>
   (visible (research_lookup r 0) \<and> research_click r = Some e1 \<and>
    research_script_click r = Some e2 \<longrightarrow>
      select_research_mode r =
        (False, [Find Research_testid, Click Research_button, Script_click Research_button])) \<and>
   map_option fst (inputFieldCheck pg c True) = map_option fst (inputFieldCheck pg c False) \<and>
   (inputFieldCheck pg c False = Some (Inr (), l) \<longrightarrow>
      (\<exists>l1. l = l1 @ snd (submit_prompt (submit_part pg) c) \<and>
         inputFieldCheck pg c True =
           Some (Inr (), l1 @ snd (select_research_mode (research_part pg)) @
                         snd (submit_prompt (submit_part pg) c)))) \<and>
   post_ask str env \<lparr>prompt = c, use_research_mode = True\<rparr> =
     post_ask str env \<lparr>prompt = c, use_research_mode = False\<rparr>"
  using research_all_missing [of r] research_clicks_fail [of r e1 e2]
    input_research [of pg c] input_research_trace [of pg c l] post_ask_research [of str env c]
  by blast

lemma smooth_input:
  "inputFieldCheck (page_env smooth_session) ''Explain X'' False =
     Some (Inr (), [Find Input_div, Click Input_field, Sleep (1/2), Find Input_div, Clear,
                    Send_keys (Text ''Explain X'')] @
                   [Sleep (1/5), Find Submit_testid, Click Submit_button, Sleep 3])"
  by (simp add: scenario_eval submitter_eval run_eval detector_eval)

lemma smooth_submit_trace:
  "snd (submit_prompt smooth_submit c) =
     [Sleep (1/5), Find Submit_testid, Click Submit_button, Sleep 3]"
  by (simp add: scenario_eval submitter_eval run_eval)

lemma smooth_result:
  "getResult smooth_extraction =
     (Inr ''X is a letter. '',
      [Scroll, Resize, Scroll, Sleep 2, Click Copy_button, Sleep 3, Read_clipboard])"
  by (simp add: scenario_eval getResult_def five_attempts_Suc six_selectors first_attempts
      click_copy_def cleaned_citation_string_def py_split_def citation_marker_def run_eval)

lemma smooth_reply:
  "post_ask plain_str smooth_session \<lparr>prompt = ''Explain X'', use_research_mode = False\<rparr> =
     Some (200, Response_field ''X is a letter. '')"
proof -
  have "map_option fst (run_perplexity plain_str smooth_session ''Explain X'' False) =
      Some (Inr ''X is a letter. '')"
    using run_outcome [of smooth_session "''Explain X''" False _ plain_str] smooth_input
      smooth_result
    by (simp add: smooth_session_def)
  then obtain l where "run_perplexity plain_str smooth_session ''Explain X'' False =
      Some (Inr ''X is a letter. '', l)"
    by (cases "run_perplexity plain_str smooth_session ''Explain X'' False") auto
  then show ?thesis
    using reply_success [of plain_str smooth_session
        "\<lparr>prompt = ''Explain X'', use_research_mode = False\<rparr>" "''X is a letter. ''" l]
    by simp
qed

theorem research_failure_not_fatal_witness:
  "missing (research_lookup no_research 0) \<and> missing (research_lookup no_research 1) \<and>
   missing (research_lookup no_research 2) \<and>
   select_research_mode no_research =
     (False, [Find Research_testid, Sleep 1, Find Research_testid, Sleep 1, Find Research_testid]) \<and>
   visible (research_lookup stubborn_research 0) \<and>
   research_click stubborn_research = Some (Exception ''element click intercepted'') \<and>
   research_script_click stubborn_research = Some (Exception ''javascript error'') \<and>
   select_research_mode stubborn_research =
     (False, [Find Research_testid, Click Research_button, Script_click Research_button]) \<and>
   inputFieldCheck (page_env smooth_session) ''Explain X'' True =
     Some (Inr (), [Find Input_div, Click Input_field, Sleep (1/2), Find Input_div, Clear,
                    Send_keys (Text ''Explain X''),
                    Find Research_testid, Sleep 1, Find Research_testid, Sleep 1,
                    Find Research_testid,
                    Sleep (1/5), Find Submit_testid, Click Submit_button, Sleep 3]) \<and>
   post_ask plain_str smooth_session \<lparr>prompt = ''Explain X'', use_research_mode = True\<rparr> =
     Some (200, Response_field ''X is a letter. '')"
proof -
  let ?enter = "[Find Input_div, Click Input_field, Sleep (1/2), Find Input_div, Clear,
                    Send_keys (Text ''Explain X'')]"
  let ?submit = "[Sleep (1/5), Find Submit_testid, Click Submit_button, Sleep 3]"
  note rule = research_failure_not_fatal [of no_research _ _ "page_env smooth_session"
      "''Explain X''" "?enter @ ?submit" plain_str smooth_session]
  note rule2 = research_failure_not_fatal [of stubborn_research
      "Exception ''element click intercepted''" "Exception ''javascript error''"
      "page_env smooth_session" "''Explain X''" "?enter @ ?submit" plain_str smooth_session]
  have m: "missing (research_lookup no_research 0) \<and> missing (research_lookup no_research 1) \<and>
      missing (research_lookup no_research 2)"
    by (simp add: no_research_def missing_def)
  have sel: "select_research_mode no_research =
     (False, [Find Research_testid, Sleep 1, Find Research_testid, Sleep 1, Find Research_testid])"
    using rule m by blast
  have v: "visible (research_lookup stubborn_research 0) \<and>
      research_click stubborn_research = Some (Exception ''element click intercepted'') \<and>
      research_script_click stubborn_research = Some (Exception ''javascript error'')"
    by (simp add: stubborn_research_def visible_def)
  have sel2: "select_research_mode stubborn_research =
     (False, [Find Research_testid, Click Research_button, Script_click Research_button])"
    using rule2 v by blast
  have parts: "research_part (page_env smooth_session) = no_research"
    "submit_part (page_env smooth_session) = smooth_submit"
    by (simp_all add: smooth_session_def)
  obtain l1 where l1: "?enter @ ?submit = l1 @ snd (submit_prompt smooth_submit ''Explain X'')"
    and t: "inputFieldCheck (page_env smooth_session) ''Explain X'' True =
        Some (Inr (), l1 @ snd (select_research_mode no_research) @
                      snd (submit_prompt smooth_submit ''Explain X''))"
    using rule smooth_input parts by auto
  have "l1 = ?enter"
    using l1 by (simp add: smooth_submit_trace)
  then have input: "inputFieldCheck (page_env smooth_session) ''Explain X'' True =
      Some (Inr (), ?enter @ [Find Research_testid, Sleep 1, Find Research_testid, Sleep 1,
                    Find Research_testid] @ ?submit)"
    using t sel by (simp add: smooth_submit_trace)
  have reply: "post_ask plain_str smooth_session \<lparr>prompt = ''Explain X'', use_research_mode = True\<rparr> =
      Some (200, Response_field ''X is a letter. '')"
    using rule smooth_reply by simp
  show ?thesis
    using m sel v sel2 input reply by simp
qed





lemma soft_joined_texts: "Text s \<in> set (soft_joined parts) \<Longrightarrow> s \<in> set parts"
  by (induction parts rule: soft_joined.induct) auto

lemma soft_joined_two: "2 \<le> length parts \<Longrightarrow> ShiftEnter \<in> set (soft_joined parts)"
  by (cases parts rule: soft_joined.cases) auto

lemma typing_with_newline:
  assumes "newline \<in> set c"
  shows "ShiftEnter \<in> set (typing_keys c) \<and> Text c \<notin> set (typing_keys c)"
proof -
  let ?parts = "py_split [newline] c"
  have keys: "typing_keys c = soft_joined ?parts"
    and free: "list_all (\<lambda>part. newline \<notin> set part) ?parts"
    and join: "py_join [newline] ?parts = c"
    using typing_roundtrip_parts [of c] by simp_all
  have "c \<notin> set ?parts"
    using free assms by (auto simp: list_all_iff)
  then have no_raw: "Text c \<notin> set (typing_keys c)"
    using keys soft_joined_texts [of c ?parts] by auto
  have "2 \<le> length ?parts"
  proof (cases ?parts)
    case Nil
    then show ?thesis using join assms by simp
  next
    case (Cons p ps)
    show ?thesis
    proof (cases ps)
      case Nil
      then have "p = c" using join Cons by simp
      then show ?thesis using free Cons assms by simp
    next
      case (Cons q qs)
      then show ?thesis using \<open>?parts = p # ps\<close> by simp
    qed
  qed
  then show ?thesis
    using keys no_raw soft_joined_two [of ?parts] by simp
qed

lemma enter_trace_keys: "Send_keys ShiftEnter \<notin> set (enter_trace env)"
  "Send_keys (Text c) \<notin> set (enter_trace env)"
  by (simp_all add: enter_trace_def)

lemma fallback_no_soft_newline: "Send_keys ShiftEnter \<notin> set (snd (keyboard_fallback env c))"
proof (cases "fallback_reading env")
  case (Unreadable e)
  then show ?thesis
    using fallback_trace_unreadable [of env e c] by (simp add: enter_trace_keys)
next
  case (Element_text tc shown)
  then show ?thesis
    using fallback_trace [of env tc shown c] by (simp add: enter_trace_keys)
qed


text \<open>
  C10.  In the keyboard fallback, when the field is read as empty (after stripping), the
  first key input is the whole prompt as one raw string, sent once; when the field holds
  text, the prompt is not re-typed.  The fallback never sends a soft newline.  For a
  prompt with an embedded line feed this differs from the typing phase, which sends a
  soft newline and never the prompt as one string.
\<close>

theorem retype_is_raw:
  "(fallback_reading env = Element_text tc shown \<and> strip (text_of tc shown) = [] \<longrightarrow>
      take 2 (snd (keyboard_fallback env c)) = [Read_field, Send_keys (Text c)] \<and>
      count_list (snd (keyboard_fallback env c)) (Send_keys (Text c)) = 1) \<and>
   (fallback_reading env = Element_text tc shown \<and> strip (text_of tc shown) \<noteq> [] \<longrightarrow>
      Send_keys (Text c) \<notin> set (snd (keyboard_fallback env c))) \<and>
   Send_keys ShiftEnter \<notin> set (snd (keyboard_fallback env c)) \<and>
   (newline \<in> set c \<longrightarrow>
      ShiftEnter \<in> set (typing_keys c) \<and> Text c \<notin> set (typing_keys c))"
proof (intro conjI impI)
  assume a: "fallback_reading env = Element_text tc shown \<and> strip (text_of tc shown) = []"
  then show "take 2 (snd (keyboard_fallback env c)) = [Read_field, Send_keys (Text c)]"
    using fallback_trace [of env tc shown c] by simp
  show "count_list (snd (keyboard_fallback env c)) (Send_keys (Text c)) = 1"
    using a fallback_trace [of env tc shown c] by (simp add: enter_trace_def)
next
  assume "fallback_reading env = Element_text tc shown \<and> strip (text_of tc shown) \<noteq> []"
  then show "Send_keys (Text c) \<notin> set (snd (keyboard_fallback env c))"
    using fallback_trace [of env tc shown c] by (simp add: enter_trace_def)
next
  show "Send_keys ShiftEnter \<notin> set (snd (keyboard_fallback env c))"
    by (rule fallback_no_soft_newline)
next
  assume "newline \<in> set c"
  then show "ShiftEnter \<in> set (typing_keys c)" and "Text c \<notin> set (typing_keys c)"
    using typing_with_newline [of c] by simp_all
qed

theorem retype_is_raw_witness:
  "fallback_reading cleared_field = Element_text (Some '' '') [] \<and>
   strip (text_of (Some '' '') []) = [] \<and>
   newline \<in> set two_lines \<and>
   take 2 (snd (keyboard_fallback cleared_field two_lines)) =
     [Read_field, Send_keys (Text two_lines)] \<and>
   Send_keys ShiftEnter \<notin> set (snd (keyboard_fallback cleared_field two_lines)) \<and>
   ShiftEnter \<in> set (typing_keys two_lines) \<and>
   Text two_lines \<notin> set (typing_keys two_lines) \<and>
   fallback_reading no_button = Element_text None ''Explain X'' \<and>
   strip (text_of None ''Explain X'') \<noteq> [] \<and>
   Send_keys (Text two_lines) \<notin> set (snd (keyboard_fallback no_button two_lines))"
proof -
  have r: "fallback_reading cleared_field = Element_text (Some '' '') []"
    by (simp add: cleared_field_def no_button_def smooth_submit_def)
  have blank: "strip (text_of (Some '' '') []) = []"
    by (simp add: text_of_def strip_def isspace_def)
  have nl: "newline \<in> set two_lines"
    by (simp add: two_lines_def)
  have r2: "fallback_reading no_button = Element_text None ''Explain X''"
    by (simp add: no_button_def smooth_submit_def)
  have nonblank: "strip (text_of None ''Explain X'') \<noteq> []"
    by (simp add: text_of_def strip_def isspace_def)
  note a = retype_is_raw [of cleared_field "Some '' ''" "[]" two_lines]
  note b = retype_is_raw [of no_button None "''Explain X''" two_lines]
  have c1: "take 2 (snd (keyboard_fallback cleared_field two_lines)) =
      [Read_field, Send_keys (Text two_lines)]"
    using a r blank by blast
  have c2: "Send_keys ShiftEnter \<notin> set (snd (keyboard_fallback cleared_field two_lines))"
    using a by blast
  have c3: "ShiftEnter \<in> set (typing_keys two_lines)"
    and c4: "Text two_lines \<notin> set (typing_keys two_lines)"
    using a nl by blast+
  have c5: "Send_keys (Text two_lines) \<notin> set (snd (keyboard_fallback no_button two_lines))"
    using b r2 nonblank by blast
  from r blank nl c1 c2 c3 c4 r2 nonblank c5 show ?thesis
    by - (intro conjI; assumption)
qed

lemma send_all_trace:
  "fst (send_all outcome i ks) = Inr () \<Longrightarrow> snd (send_all outcome i ks) = map Send_keys ks"
  by (induction ks arbitrary: i)
     (auto simp: ret_def before_def and_then_def act_def after_def split: option.splits)

lemma enter_prompt_trace:
  "fst (enter_prompt env c) = Inr () \<Longrightarrow>
   snd (enter_prompt env c) =
     [Find Input_div, Click Input_field, Sleep (1/2), Find Input_div, Clear] @
     map Send_keys (typing_keys c)"
  using send_all_trace [of "key_sends env" 0 "typing_keys c"]
  by (auto simp: enter_prompt_def before_def and_then_def act_def after_def sleep_def
      split: option.splits sum.splits)

text \<open>
  C5.  For every prompt (with or without embedded line feeds) the keys of the typing
  phase are the segments of the prompt split at line feeds, each followed by one soft
  newline except the last; no segment contains a line feed; joining the segments with one
  line feed per soft newline gives back the prompt exactly; and when the typing phase
  raises nothing, these keys are what it sends, in this order, after focusing and clearing
  the field.
\<close>

theorem typing_roundtrip:
  "typing_keys content = soft_joined (py_split [newline] content) \<and>
   list_all (\<lambda>part. newline \<notin> set part) (py_split [newline] content) \<and>
   py_join [newline] (py_split [newline] content) = content \<and>
   typed_text (typing_keys content) = content \<and>
   (fst (enter_prompt env content) = Inr () \<longrightarrow>
      snd (enter_prompt env content) =
        [Find Input_div, Click Input_field, Sleep (1/2), Find Input_div, Clear] @
        map Send_keys (typing_keys content))"
  using typing_roundtrip_parts [of content] enter_prompt_trace [of env content]
  by blast

lemma two_lines_keys:
  "typing_keys two_lines = [Text ''Explain X'', ShiftEnter, Text ''In two sentences'']"
  by (simp add: typing_keys_def two_lines_def newline_def py_split_def part_keys_def)

theorem typing_roundtrip_witness:
  "newline \<in> set two_lines \<and>
   py_split [newline] two_lines = [''Explain X'', ''In two sentences''] \<and>
   fst (enter_prompt (smooth_typing two_lines) two_lines) = Inr () \<and>
   snd (enter_prompt (smooth_typing two_lines) two_lines) =
     [Find Input_div, Click Input_field, Sleep (1/2), Find Input_div, Clear,
      Send_keys (Text ''Explain X''), Send_keys ShiftEnter, Send_keys (Text ''In two sentences'')] \<and>
   typed_text [Text ''Explain X'', ShiftEnter, Text ''In two sentences''] = two_lines"
proof -
  note rule = typing_roundtrip [of two_lines "smooth_typing two_lines"]
  have nl: "newline \<in> set two_lines"
    by (simp add: two_lines_def)
  have parts: "py_split [newline] two_lines = [''Explain X'', ''In two sentences'']"
    by (simp add: two_lines_def newline_def py_split_def)
  have ok: "fst (enter_prompt (smooth_typing two_lines) two_lines) = Inr ()"
    by (simp add: two_lines_keys enter_prompt_def smooth_typing_def run_eval)
  have trace: "snd (enter_prompt (smooth_typing two_lines) two_lines) =
     [Find Input_div, Click Input_field, Sleep (1/2), Find Input_div, Clear,
      Send_keys (Text ''Explain X''), Send_keys ShiftEnter, Send_keys (Text ''In two sentences'')]"
    using rule ok by (simp add: two_lines_keys)
  have roundtrip: "typed_text [Text ''Explain X'', ShiftEnter, Text ''In two sentences''] = two_lines"
  proof -
    have "typed_text (typing_keys two_lines) = two_lines"
      using rule by blast
    then show ?thesis
      by (simp only: two_lines_keys)
  qed
  from nl parts ok trace roundtrip show ?thesis
    by - (intro conjI; assumption)
qed

section \<open>Claims about the request handler\<close>

lemma run_trace_counts:
  assumes "run_perplexity str env p research = Some (out, l)"
  shows "count_list l Launch = (if launch env = None then 1 else 0) \<and>
     count_list l Quit = count_list l Launch \<and>
     well_scoped False l \<and>
     (launch env = None \<longrightarrow> (\<exists>mid. l = Launch # mid @ [Quit] \<and> session_free mid)) \<and>
     (launch env \<noteq> None \<longrightarrow> l = [])"
proof (cases "launch env")
  case None
  then obtain mid where l: "l = Launch # mid @ [Quit]" and mid: "session_free mid"
    using run_launched [OF None assms] by blast
  have "well_scoped False l"
    using well_scoped_session [OF mid, of "[]"] l by simp
  then show ?thesis
    using None l mid count_session [OF mid] by auto
next
  case (Some e)
  then have "l = []"
    using assms run_unlaunched [of env e str p research] by simp
  then show ?thesis
    using Some by simp
qed

text \<open>
  C6 (as amended).  In every run of \<open>run_perplexity\<close> that returns or raises, the number
  of sessions opened equals the number closed: exactly one of each when the launch
  succeeded, with the launch first, the quit last and neither in between, whatever the
  outcome; and none of either when the launch itself raised.  In the trace of requests
  handled one after another, every driver call lies inside the session of its own
  request, and each session is quit before the next is launched.
\<close>

theorem session_release:
  "(run_perplexity str env p research = Some (out, l) \<longrightarrow>
      count_list l Launch = (if launch env = None then 1 else 0) \<and>
      count_list l Quit = count_list l Launch \<and>
      well_scoped False l \<and>
      (launch env = None \<longrightarrow> (\<exists>mid. l = Launch # mid @ [Quit] \<and> session_free mid)) \<and>
      (launch env \<noteq> None \<longrightarrow> l = [])) \<and>
   (serve str reqs = Some t \<longrightarrow> well_scoped False t)"
  using run_trace_counts [of str env p research out l] serve_well_scoped [of str reqs t]
  by blast

lemmas extractor_eval = getResult_def five_attempts_Suc six_selectors first_attempts
  click_copy_def cleaned_citation_string_def py_split_def citation_marker_def

lemma smooth_run:
  "run_perplexity plain_str smooth_session ''Explain X'' False =
     Some (Inr ''X is a letter. '',
           [Launch, Open_page, Sleep 10, Find Input_div, Click Input_field, Sleep (1/2),
            Find Input_div, Clear, Send_keys (Text ''Explain X''), Sleep (1/5),
            Find Submit_testid, Click Submit_button, Sleep 3, Scroll, Resize, Scroll, Sleep 2,
            Click Copy_button, Sleep 3, Read_clipboard, Quit])"
  using smooth_input smooth_result
  by (simp add: run_perplexity_def smooth_session_def run_eval)

lemma blocked_input:
  "inputFieldCheck (page_env blocked_session) ''Explain X'' False =
     Some (Inl (Exception ''element click intercepted''),
           [Find Input_div, Click Input_field, Sleep (1/2), Find Input_div, Clear,
            Send_keys (Text ''Explain X''), Sleep (1/5), Find Submit_testid,
            Click Submit_button])"
  by (simp add: blocked_session_def blocked_button_def scenario_eval submitter_eval run_eval
      detector_eval)

lemma blocked_run:
  "run_perplexity plain_str blocked_session ''Explain X'' False =
     Some (Inl (HTTPException 500 ''Error processing request: element click intercepted''),
           [Launch, Open_page, Sleep 10, Find Input_div, Click Input_field, Sleep (1/2),
            Find Input_div, Clear, Send_keys (Text ''Explain X''), Sleep (1/5),
            Find Submit_testid, Click Submit_button, Quit])"
  using blocked_input
  by (simp add: run_perplexity_def blocked_session_def smooth_session_def run_eval
      processing_error_def str_of_def)

theorem session_release_witness:
  "launch smooth_session = None \<and>
   run_perplexity plain_str smooth_session ''Explain X'' False =
     Some (Inr ''X is a letter. '',
           [Launch, Open_page, Sleep 10, Find Input_div, Click Input_field, Sleep (1/2),
            Find Input_div, Clear, Send_keys (Text ''Explain X''), Sleep (1/5),
            Find Submit_testid, Click Submit_button, Sleep 3, Scroll, Resize, Scroll, Sleep 2,
            Click Copy_button, Sleep 3, Read_clipboard, Quit]) \<and>
   launch blocked_session = None \<and>
   (\<exists>l. run_perplexity plain_str blocked_session ''Explain X'' False =
          Some (Inl (HTTPException 500 ''Error processing request: element click intercepted''), l) \<and>
        count_list l Launch = 1 \<and> count_list l Quit = 1 \<and> last l = Quit \<and> well_scoped False l) \<and>
   (\<exists>t. serve plain_str
          [(blocked_session, \<lparr>prompt = ''Explain X'', use_research_mode = False\<rparr>),
           (smooth_session, \<lparr>prompt = ''Explain X'', use_research_mode = False\<rparr>)] = Some t \<and>
        well_scoped False t \<and> count_list t Launch = 2 \<and> count_list t Quit = 2)"
proof -
  let ?l = "[Launch, Open_page, Sleep 10, Find Input_div, Click Input_field, Sleep (1/2),
            Find Input_div, Clear, Send_keys (Text ''Explain X''), Sleep (1/5),
            Find Submit_testid, Click Submit_button, Quit]"
  let ?req = "\<lparr>prompt = ''Explain X'', use_research_mode = False\<rparr>"
  have l1: "launch smooth_session = None"
    by (simp add: smooth_session_def)
  have l2: "launch blocked_session = None"
    by (simp add: blocked_session_def smooth_session_def)
  note rule = session_release [of plain_str blocked_session "''Explain X''" False _ ?l
      "[(blocked_session, ?req), (smooth_session, ?req)]"]
  have counts: "count_list ?l Launch = 1 \<and> count_list ?l Quit = 1 \<and> well_scoped False ?l"
    using rule blocked_run l2 by simp
  have b: "\<exists>l. run_perplexity plain_str blocked_session ''Explain X'' False =
          Some (Inl (HTTPException 500 ''Error processing request: element click intercepted''), l) \<and>
        count_list l Launch = 1 \<and> count_list l Quit = 1 \<and> last l = Quit \<and> well_scoped False l"
    using blocked_run counts by simp
  obtain t where t: "serve plain_str [(blocked_session, ?req), (smooth_session, ?req)] = Some t"
    and tc: "count_list t Launch = 2 \<and> count_list t Quit = 2"
    using blocked_run smooth_run
    by (simp add: ask_perplexity_def run_eval)
  have "well_scoped False t"
    using rule t by blast
  then have s: "\<exists>t. serve plain_str [(blocked_session, ?req), (smooth_session, ?req)] = Some t \<and>
        well_scoped False t \<and> count_list t Launch = 2 \<and> count_list t Quit = 2"
    using t tc by blast
  from l1 smooth_run l2 b s show ?thesis
    by - (intro conjI; assumption)
qed

theorem session_release_counterexample:
  "run_perplexity plain_str unlaunched_session ''Explain X'' False =
     Some (Inl (HTTPException 500 ''Error processing request: chrome not found''), []) \<and>
   count_list ([] :: action list) Launch = 0 \<and> count_list ([] :: action list) Quit = 0"
  by (simp add: run_perplexity_def unlaunched_session_def smooth_session_def raise_def
      processing_error_def str_of_def)


lemma input_defined:
  assumes "list_ex (\<lambda>k. 300 \<le> clock_loop k - start_clock (typing_part pg)) (ticks (typing_part pg))"
  shows "inputFieldCheck pg c research \<noteq> None"
proof -
  have "wait_for_typing_completion c 300 (start_clock (typing_part pg)) (ticks (typing_part pg))
      \<noteq> None"
    using monitor_loop_returns [OF assms] by (simp add: wait_for_typing_completion_def)
  then show ?thesis
    by (auto simp: inputFieldCheck_def split: prod.splits sum.splits)
qed

lemma post_ask_defined:
  assumes "list_ex (\<lambda>k. 300 \<le> clock_loop k - start_clock (typing_part (page_env env)))
             (ticks (typing_part (page_env env)))"
  shows "post_ask str env req \<noteq> None"
proof -
  have "inputFieldCheck (page_env env) (prompt req) (use_research_mode req) \<noteq> None"
    using input_defined [OF assms] by simp
  then have "run_perplexity str env (prompt req) (use_research_mode req) \<noteq> None"
    by (cases "launch env"; cases "navigation env") (simp_all add: run_perplexity_def)
  then show ?thesis
    by (simp add: post_ask_def ask_perplexity_def)
qed

lemma reply_unlaunched:
  "launch env = Some e \<Longrightarrow>
   post_ask str env req = Some (500, Detail_field (str_of str (processing_error str e)))"
  using run_unlaunched [of env e str "prompt req" "use_research_mode req"]
    reply_failure [of str env req "processing_error str e" "[]"]
  by simp

lemma reply_by_stage:
  assumes "launch env = None" and "navigation env = None" and "quit_call env = None"
    and "inputFieldCheck (page_env env) (prompt req) (use_research_mode req) = Some sub"
  shows "post_ask str env req =
     Some (case fst sub of
             Inl e \<Rightarrow> (500, Detail_field (str_of str (processing_error str e)))
           | Inr u \<Rightarrow>
               (case fst (getResult (extraction_env env)) of
                  Inl e \<Rightarrow> (500, Detail_field (str_of str (processing_error str e)))
                | Inr answer \<Rightarrow> (200, Response_field answer)))"
proof -
  let ?run = "run_perplexity str env (prompt req) (use_research_mode req)"
  have out: "map_option fst ?run =
      Some (case fst sub of
              Inl e \<Rightarrow> Inl (processing_error str e)
            | Inr u \<Rightarrow>
                (case fst (getResult (extraction_env env)) of
                   Inl e \<Rightarrow> Inl (processing_error str e)
                 | Inr answer \<Rightarrow> Inr answer))"
    using run_outcome [OF assms(1) assms(2) assms(4), of str] assms(3) by simp
  then obtain r l where run: "?run = Some (r, l)"
    by (cases ?run) auto
  show ?thesis
  proof (cases r)
    case (Inl e)
    then show ?thesis
      using out run reply_failure [of str env req e l]
      by (auto split: sum.splits)
  next
    case (Inr answer)
    then show ?thesis
      using out run reply_success [of str env req answer l]
      by (auto split: sum.splits)
  qed
qed

text \<open>
  C7.  The reply to \<open>POST /ask\<close> is status 200 with a \<open>response\<close> string or status 500
  with a \<open>detail\<close> string, and there is a reply whenever the detector's clock reaches
  its ceiling.  A run that returns an answer gives 200 with that answer; a run that
  raises gives 500 with the exception's text as detail.  A launch that raises gives 500;
  with the session launched, the page opened and the quit succeeding, a failure of
  \<open>inputFieldCheck\<close> or of \<open>getResult\<close> gives 500 with the same form of detail, and
  success of both gives 200.
\<close>

theorem http_mapping:
  "(post_ask str env req = None \<or>
    (\<exists>answer. post_ask str env req = Some (200, Response_field answer)) \<or>
    (\<exists>detail. post_ask str env req = Some (500, Detail_field detail))) \<and>
   (list_ex (\<lambda>k. 300 \<le> clock_loop k - start_clock (typing_part (page_env env)))
      (ticks (typing_part (page_env env))) \<longrightarrow> post_ask str env req \<noteq> None) \<and>
   (run_perplexity str env (prompt req) (use_research_mode req) = Some (Inr answer, l) \<longrightarrow>
      post_ask str env req = Some (200, Response_field answer)) \<and>
   (run_perplexity str env (prompt req) (use_research_mode req) = Some (Inl e, l) \<longrightarrow>
      post_ask str env req = Some (500, Detail_field (str_of str e))) \<and>
   (launch env = Some e \<longrightarrow>
      post_ask str env req = Some (500, Detail_field (str_of str (processing_error str e)))) \<and>
   (launch env = None \<and> navigation env = None \<and> quit_call env = None \<and>
    inputFieldCheck (page_env env) (prompt req) (use_research_mode req) = Some sub \<longrightarrow>
      post_ask str env req =
        Some (case fst sub of
                Inl e \<Rightarrow> (500, Detail_field (str_of str (processing_error str e)))
              | Inr u \<Rightarrow>
                  (case fst (getResult (extraction_env env)) of
                     Inl e \<Rightarrow> (500, Detail_field (str_of str (processing_error str e)))
                   | Inr answer \<Rightarrow> (200, Response_field answer))))"
proof -
  have stage: "launch env = None \<and> navigation env = None \<and> quit_call env = None \<and>
    inputFieldCheck (page_env env) (prompt req) (use_research_mode req) = Some sub \<longrightarrow>
      post_ask str env req =
        Some (case fst sub of
                Inl e \<Rightarrow> (500, Detail_field (str_of str (processing_error str e)))
              | Inr u \<Rightarrow>
                  (case fst (getResult (extraction_env env)) of
                     Inl e \<Rightarrow> (500, Detail_field (str_of str (processing_error str e)))
                   | Inr answer \<Rightarrow> (200, Response_field answer)))"
    using reply_by_stage [of env req sub str] by blast
  have defined: "list_ex (\<lambda>k. 300 \<le> clock_loop k - start_clock (typing_part (page_env env)))
      (ticks (typing_part (page_env env))) \<longrightarrow> post_ask str env req \<noteq> None"
    using post_ask_defined [of env str req] by blast
  have ok: "run_perplexity str env (prompt req) (use_research_mode req) = Some (Inr answer, l) \<longrightarrow>
      post_ask str env req = Some (200, Response_field answer)"
    using reply_success [of str env req answer l] by blast
  have bad: "run_perplexity str env (prompt req) (use_research_mode req) = Some (Inl e, l) \<longrightarrow>
      post_ask str env req = Some (500, Detail_field (str_of str e))"
    using reply_failure [of str env req e l] by blast
  have un: "launch env = Some e \<longrightarrow>
      post_ask str env req = Some (500, Detail_field (str_of str (processing_error str e)))"
    using reply_unlaunched [of env e str req] by blast
  from reply_kinds [of str env req] defined ok bad un stage show ?thesis
    by - (intro conjI; assumption)
qed

lemma dead_input:
  "fst (the (inputFieldCheck (page_env dead_session) ''Explain X'' False)) =
     Inl (Exception ''Submit failed - all methods exhausted'') \<and>
   inputFieldCheck (page_env dead_session) ''Explain X'' False \<noteq> None"
  by (simp add: dead_session_def dead_page_def no_button_def scenario_eval submitter_eval
      run_eval detector_eval strip_def)

lemma no_copy_result:
  "fst (getResult (extraction_env no_copy_session)) =
     Inl (Exception ''No copy button found after 5 attempts'')"
  by (simp add: no_copy_session_def scenario_eval extractor_eval run_eval)

theorem http_mapping_witness:
  "post_ask plain_str smooth_session \<lparr>prompt = ''Explain X'', use_research_mode = False\<rparr> =
     Some (200, Response_field ''X is a letter. '') \<and>
   launch unlaunched_session = Some (Exception ''chrome not found'') \<and>
   post_ask plain_str unlaunched_session \<lparr>prompt = ''Explain X'', use_research_mode = False\<rparr> =
     Some (500, Detail_field ''Error processing request: chrome not found'') \<and>
   post_ask plain_str dead_session \<lparr>prompt = ''Explain X'', use_research_mode = False\<rparr> =
     Some (500, Detail_field ''Error processing request: Submit failed - all methods exhausted'') \<and>
   post_ask plain_str no_copy_session \<lparr>prompt = ''Explain X'', use_research_mode = False\<rparr> =
     Some (500, Detail_field ''Error processing request: No copy button found after 5 attempts'') \<and>
   list_ex (\<lambda>k. 300 \<le> clock_loop k - start_clock (typing_part (stuck_page ''ab'' ''ab'')))
     (ticks (typing_part (stuck_page ''ab'' ''ab''))) \<and>
   post_ask plain_str (smooth_session\<lparr>page_env := stuck_page ''ab'' ''ab''\<rparr>)
     \<lparr>prompt = ''abcde'', use_research_mode = False\<rparr> \<noteq> None"
proof -
  let ?req = "\<lparr>prompt = ''Explain X'', use_research_mode = False\<rparr>"
  have r1: "post_ask plain_str smooth_session ?req = Some (200, Response_field ''X is a letter. '')"
    using http_mapping [of plain_str smooth_session ?req "''X is a letter. ''" _ "Exception []"
        "(Inr (), [])"] smooth_run
    by simp
  have l2: "launch unlaunched_session = Some (Exception ''chrome not found'')"
    by (simp add: unlaunched_session_def)
  have r2: "post_ask plain_str unlaunched_session ?req =
      Some (500, Detail_field ''Error processing request: chrome not found'')"
    using http_mapping [of plain_str unlaunched_session ?req "[]" "[]"
        "Exception ''chrome not found''" "(Inr (), [])"] l2
    by (simp add: processing_error_def str_of_def plain_str_def)
  obtain sub where sub: "inputFieldCheck (page_env dead_session) ''Explain X'' False = Some sub"
    and fsub: "fst sub = Inl (Exception ''Submit failed - all methods exhausted'')"
    using dead_input by (cases "inputFieldCheck (page_env dead_session) ''Explain X'' False") auto
  have d: "launch dead_session = None \<and> navigation dead_session = None \<and>
      quit_call dead_session = None"
    by (simp add: dead_session_def smooth_session_def)
  have r3: "post_ask plain_str dead_session ?req =
      Some (500, Detail_field ''Error processing request: Submit failed - all methods exhausted'')"
    using http_mapping [of plain_str dead_session ?req "[]" "[]" "Exception []" sub] d sub fsub
    by (simp add: processing_error_def str_of_def plain_str_def)
  have n: "launch no_copy_session = None \<and> navigation no_copy_session = None \<and>
      quit_call no_copy_session = None"
    by (simp add: no_copy_session_def smooth_session_def)
  have ni: "inputFieldCheck (page_env no_copy_session) ''Explain X'' False =
      Some (Inr (), [Find Input_div, Click Input_field, Sleep (1/2), Find Input_div, Clear,
                    Send_keys (Text ''Explain X'')] @
                   [Sleep (1/5), Find Submit_testid, Click Submit_button, Sleep 3])"
    using smooth_input by (simp add: no_copy_session_def smooth_session_def)
  have r4: "post_ask plain_str no_copy_session ?req =
      Some (500, Detail_field ''Error processing request: No copy button found after 5 attempts'')"
    using http_mapping [of plain_str no_copy_session ?req "[]" "[]" "Exception []" "(Inr (), _)"]
      n ni no_copy_result
    by (simp add: processing_error_def str_of_def plain_str_def)
  have c: "list_ex (\<lambda>k. 300 \<le> clock_loop k - start_clock (typing_part (stuck_page ''ab'' ''ab'')))
      (ticks (typing_part (stuck_page ''ab'' ''ab'')))"
    by (simp add: stuck_page_def smooth_typing_def sample_def)
  have r5: "post_ask plain_str (smooth_session\<lparr>page_env := stuck_page ''ab'' ''ab''\<rparr>)
      \<lparr>prompt = ''abcde'', use_research_mode = False\<rparr> \<noteq> None"
    using http_mapping [of plain_str "smooth_session\<lparr>page_env := stuck_page ''ab'' ''ab''\<rparr>"
        "\<lparr>prompt = ''abcde'', use_research_mode = False\<rparr>" "[]" "[]" "Exception []"
        "(Inr (), [])"] c
    by simp
  from r1 l2 r2 r3 r4 c r5 show ?thesis
    by - (intro conjI; assumption)
qed

section \<open>Claims about the result extractor\<close>

lemma fst_act: "fst (act a outcome) = (case outcome of None \<Rightarrow> Inr () | Some e \<Rightarrow> Inl e)"
  by (simp add: act_def split: option.splits)

lemma fst_sleep: "fst (sleep t) = Inr ()"
  by (simp add: sleep_def)

lemma fst_getResult:
  "fst (getResult x) =
     (case scrolling x of Some e \<Rightarrow> Inl e | None \<Rightarrow>
      case window_setup x of Some e \<Rightarrow> Inl e | None \<Rightarrow>
      case fst (copy_attempts x 5 [1..<6]) of Inl e \<Rightarrow> Inl e
      | Inr copy_button \<Rightarrow>
          if copy_button then
            (case scroll_into_view x of Some e \<Rightarrow> Inl e | None \<Rightarrow>
             case fst (click_copy x) of Inl e \<Rightarrow> Inl e
             | Inr u \<Rightarrow>
                 (case retrieved x of
                    None \<Rightarrow>
                      Inl (Exception ''Failed to read clipboard content after multiple attempts'')
                  | Some c \<Rightarrow>
                      if c \<noteq> [] then cleaned_citation_string c
                      else Inl (Exception
                             ''Failed to read clipboard content after multiple attempts'')))
          else Inl (Exception ''No copy button found after 5 attempts''))"
  unfolding getResult_def retrieved_def
  by (simp add: fst_before fst_and_then fst_act fst_sleep fst_after raise_def ret_def
      split: option.splits sum.splits prod.splits)

lemma getResult_reads:
  "reaches_clipboard x \<Longrightarrow> retrieved x = Some clip \<Longrightarrow> clip \<noteq> [] \<Longrightarrow>
   fst (getResult x) = cleaned_citation_string clip"
  by (simp add: fst_getResult reaches_clipboard_def)

lemma getResult_answer:
  assumes "fst (getResult x) = Inr answer"
  shows "\<exists>clip. reaches_clipboard x \<and> retrieved x = Some clip \<and> clip \<noteq> [] \<and>
           cleaned_citation_string clip = Inr answer"
  using assms unfolding fst_getResult reaches_clipboard_def
  by (auto split: option.splits sum.splits if_splits)

lemma retrieved_first:
  "clipboard x 0 = Inr (Some clip) \<Longrightarrow> clip \<noteq> [] \<Longrightarrow> retrieved x = Some clip"
  by (simp add: retrieved_def first_attempts)

lemma truncation_absent:
  assumes "\<not> sublist citation_marker clip"
  shows "cleaned_citation_string clip = Inr clip"
proof -
  have "py_split citation_marker clip = [clip]"
    using assms split_from_absent [of citation_marker clip "[]"] by (simp add: py_split_def)
  then show ?thesis
    by (simp add: cleaned_citation_string_def)
qed

lemma truncation_first:
  assumes "\<not> sublist citation_marker (pre @ butlast citation_marker)"
  shows "cleaned_citation_string (pre @ citation_marker @ post) = Inr pre"
proof -
  have "citation_marker \<noteq> []"
    by (simp add: citation_marker_def)
  then have "py_split citation_marker (pre @ citation_marker @ post)
      = pre # split_from citation_marker [] post"
    using assms split_from_first [of citation_marker pre "[]" post] by (simp add: py_split_def)
  moreover have "pre @ citation_marker @ post \<noteq> []"
    by (simp add: citation_marker_def)
  ultimately show ?thesis
    by (simp add: cleaned_citation_string_def)
qed

text \<open>
  C4.  The post-processing of the clipboard text returns the text unchanged when the
  marker \<open>[1]\<close> does not occur in it, and otherwise exactly the prefix before the first
  occurrence of the marker (\<open>pre\<close> is that prefix when the marker has no occurrence
  starting inside \<open>pre\<close>, that is, none within \<open>pre\<close> followed by all but the last
  character of the marker).  On the specification's example it returns
  \<open>Answer text \<close> with its trailing blank.  This is what \<open>getResult\<close> returns: every
  answer it returns is the post-processed text of a non-empty clipboard text it retrieved,
  and a run that gets as far as reading the clipboard and retrieves a non-empty text
  returns that text unchanged when it has no marker and its prefix before the first
  marker otherwise.  A first read that gives a non-empty text is the text retrieved.
\<close>

theorem citation_truncation:
  "(\<not> sublist citation_marker clip \<longrightarrow> cleaned_citation_string clip = Inr clip) \<and>
   (\<not> sublist citation_marker (pre @ butlast citation_marker) \<longrightarrow>
      cleaned_citation_string (pre @ citation_marker @ post) = Inr pre) \<and>
   cleaned_citation_string ''Answer text [1][2] more'' = Inr ''Answer text '' \<and>
   (fst (getResult x) = Inr answer \<longrightarrow>
      (\<exists>got. reaches_clipboard x \<and> retrieved x = Some got \<and> got \<noteq> [] \<and>
             cleaned_citation_string got = Inr answer)) \<and>
   (reaches_clipboard x \<and> retrieved x = Some clip \<and> clip \<noteq> [] \<and>
    \<not> sublist citation_marker clip \<longrightarrow>
      fst (getResult x) = Inr clip) \<and>
   (reaches_clipboard x \<and> retrieved x = Some (pre @ citation_marker @ post) \<and>
    \<not> sublist citation_marker (pre @ butlast citation_marker) \<longrightarrow>
      fst (getResult x) = Inr pre) \<and>
   (clipboard x 0 = Inr (Some clip) \<and> clip \<noteq> [] \<longrightarrow> retrieved x = Some clip)"
proof -
  have a: "\<not> sublist citation_marker clip \<longrightarrow> cleaned_citation_string clip = Inr clip"
    using truncation_absent [of clip] by (rule impI)
  have b: "\<not> sublist citation_marker (pre @ butlast citation_marker) \<longrightarrow>
      cleaned_citation_string (pre @ citation_marker @ post) = Inr pre"
    using truncation_first [of pre post] by (rule impI)
  have c: "cleaned_citation_string ''Answer text [1][2] more'' = Inr ''Answer text ''"
    by (simp add: cleaned_citation_string_def py_split_def citation_marker_def)
  have d: "fst (getResult x) = Inr answer \<longrightarrow>
      (\<exists>got. reaches_clipboard x \<and> retrieved x = Some got \<and> got \<noteq> [] \<and>
             cleaned_citation_string got = Inr answer)"
    using getResult_answer [of x answer] by (rule impI)
  have e: "reaches_clipboard x \<and> retrieved x = Some clip \<and> clip \<noteq> [] \<and>
      \<not> sublist citation_marker clip \<longrightarrow> fst (getResult x) = Inr clip"
    using getResult_reads [of x clip] truncation_absent [of clip] by simp
  have nonempty: "pre @ citation_marker @ post \<noteq> []"
    by (simp add: citation_marker_def)
  have f: "reaches_clipboard x \<and> retrieved x = Some (pre @ citation_marker @ post) \<and>
      \<not> sublist citation_marker (pre @ butlast citation_marker) \<longrightarrow>
        fst (getResult x) = Inr pre"
    using getResult_reads [of x "pre @ citation_marker @ post", OF _ _ nonempty]
      truncation_first [of pre post] by simp
  have g: "clipboard x 0 = Inr (Some clip) \<and> clip \<noteq> [] \<longrightarrow> retrieved x = Some clip"
    using retrieved_first [of x clip] by simp
  from a b c d e f g show ?thesis
    by - (intro conjI; assumption)
qed

theorem citation_truncation_witness:
  "\<not> sublist citation_marker ''No marker here [2]'' \<and>
   cleaned_citation_string ''No marker here [2]'' = Inr ''No marker here [2]'' \<and>
   \<not> sublist citation_marker (''See [2] and '' @ butlast citation_marker) \<and>
   cleaned_citation_string (''See [2] and '' @ citation_marker @ '' then [1] again'')
     = Inr ''See [2] and '' \<and>
   reaches_clipboard smooth_extraction \<and>
   clipboard smooth_extraction 0 = Inr (Some (''X is a letter. '' @ citation_marker @ '' source'')) \<and>
   retrieved smooth_extraction = Some (''X is a letter. '' @ citation_marker @ '' source'') \<and>
   \<not> sublist citation_marker (''X is a letter. '' @ butlast citation_marker) \<and>
   fst (getResult smooth_extraction) = Inr ''X is a letter. '' \<and>
   (\<exists>got. reaches_clipboard smooth_extraction \<and> retrieved smooth_extraction = Some got \<and>
          got \<noteq> [] \<and> cleaned_citation_string got = Inr ''X is a letter. '') \<and>
   reaches_clipboard plain_extraction \<and>
   clipboard plain_extraction 0 = Inr (Some ''No marker here [2]'') \<and>
   retrieved plain_extraction = Some ''No marker here [2]'' \<and>
   fst (getResult plain_extraction) = Inr ''No marker here [2]''"
proof -
  have a: "\<not> sublist citation_marker ''No marker here [2]''"
    by (simp add: citation_marker_def sublist_Cons_right)
  have b: "\<not> sublist citation_marker (''See [2] and '' @ butlast citation_marker)"
    by (simp add: citation_marker_def sublist_Cons_right)
  note plain = citation_truncation [where clip = "''No marker here [2]''"
      and x = plain_extraction]
  note cited = citation_truncation [where pre = "''See [2] and ''"
      and post = "'' then [1] again''"]
  have a': "cleaned_citation_string ''No marker here [2]'' = Inr ''No marker here [2]''"
    using plain [THEN conjunct1] a by (rule mp)
  have b': "cleaned_citation_string (''See [2] and '' @ citation_marker @ '' then [1] again'')
      = Inr ''See [2] and ''"
    using cited [THEN conjunct2, THEN conjunct1] b by (rule mp)
  have reach: "reaches_clipboard smooth_extraction"
    by (simp add: reaches_clipboard_def smooth_extraction_def five_attempts_Suc six_selectors
        click_copy_def run_eval)
  have clip: "clipboard smooth_extraction 0 =
      Inr (Some (''X is a letter. '' @ citation_marker @ '' source''))"
    by (simp add: smooth_extraction_def citation_marker_def)
  have filled: "''X is a letter. '' @ citation_marker @ '' source'' \<noteq> []"
    by simp
  note smooth = citation_truncation [where x = smooth_extraction
      and clip = "''X is a letter. '' @ citation_marker @ '' source''"
      and pre = "''X is a letter. ''" and post = "'' source''"]
  note last_part = smooth [THEN conjunct2, THEN conjunct2, THEN conjunct2, THEN conjunct2,
      THEN conjunct2]
  have got: "retrieved smooth_extraction =
      Some (''X is a letter. '' @ citation_marker @ '' source'')"
    using last_part [THEN conjunct2] conjI [OF clip filled] by (rule mp)
  have c: "\<not> sublist citation_marker (''X is a letter. '' @ butlast citation_marker)"
    by (simp add: citation_marker_def sublist_Cons_right)
  have answer: "fst (getResult smooth_extraction) = Inr ''X is a letter. ''"
    using last_part [THEN conjunct1] conjI [OF reach conjI [OF got c]] by (rule mp)
  have source: "\<exists>got. reaches_clipboard smooth_extraction \<and>
      retrieved smooth_extraction = Some got \<and> got \<noteq> [] \<and>
      cleaned_citation_string got = Inr ''X is a letter. ''"
    using citation_truncation [where x = smooth_extraction and answer = "''X is a letter. ''",
        THEN conjunct2, THEN conjunct2, THEN conjunct2, THEN conjunct1] answer
    by (rule mp)
  have reach': "reaches_clipboard plain_extraction"
    by (simp add: reaches_clipboard_def plain_extraction_def smooth_extraction_def
        five_attempts_Suc six_selectors click_copy_def run_eval)
  have clip': "clipboard plain_extraction 0 = Inr (Some ''No marker here [2]'')"
    by (simp add: plain_extraction_def)
  have filled': "''No marker here [2]'' \<noteq> []"
    by simp
  note plain_tail = plain [THEN conjunct2, THEN conjunct2, THEN conjunct2, THEN conjunct2]
  have got': "retrieved plain_extraction = Some ''No marker here [2]''"
    using plain_tail [THEN conjunct2, THEN conjunct2] conjI [OF clip' filled'] by (rule mp)
  have answer': "fst (getResult plain_extraction) = Inr ''No marker here [2]''"
    using plain_tail [THEN conjunct1] conjI [OF reach' conjI [OF got' conjI [OF filled' a]]]
    by (rule mp)
  from a a' b b' reach clip got c answer source reach' clip' got' answer' show ?thesis
    by - (intro conjI; assumption)
qed

end
